theory Spec2Isabelle
  imports Complex_Main "HOL-Library.Log_Nat"
begin

section \<open>Data model of the minesweeper script\<close>

text \<open>
  A cell is the object built by \<open>createCell\<close>: the flag \<open>hasMine\<close>, the counter
  \<open>neighborMines\<close> and the string \<open>state\<close>, which only ever holds "closed", "open" or
  "flagged". The board is an array of rows, each row an array of cells; every position
  holds a cell object of its own (\<open>createBoard\<close> and \<open>createSampleBoard\<close> build a fresh
  object per position), so a write through one position is seen at no other and the board
  is modelled as a list of lists of values. The game object carries \<open>rows\<close>, \<open>cols\<close>, \<open>mines\<close>,
  the string \<open>status\<close> ("in-progress", "win" or "lose") and the board.
\<close>

datatype cell_state = Closed | Open | Flagged

record cell =
  hasMine :: bool
  neighborMines :: nat
  state :: cell_state

type_synonym board = "cell list list"

datatype status = InProgress | Win | Lose

record game =
  rows :: int
  cols :: int
  mines :: int
  status :: status
  board :: board

text \<open>
  The only failure the engine code can raise is the \<open>TypeError\<close> of reading a property of
  \<open>undefined\<close>, which is what an array read outside the array yields.
\<close>

datatype error = TypeError

definition createCell :: "bool \<Rightarrow> cell" where
  "createCell m = \<lparr>hasMine = m, neighborMines = 0, state = Closed\<rparr>"

text \<open>\<open>xs[i]\<close> of the script: \<open>None\<close> stands for \<open>undefined\<close>.\<close>

definition js_index :: "'a list \<Rightarrow> int \<Rightarrow> 'a option" where
  "js_index xs i = (if 0 \<le> i \<and> i < int (length xs) then Some (xs ! nat i) else None)"

text \<open>
  \<open>board[r][c]\<close> followed by a property read. When \<open>board[r]\<close> is \<open>undefined\<close> the second
  index raises, and when \<open>board[r][c]\<close> is \<open>undefined\<close> the property read raises; both are
  the result \<open>None\<close> here, which every caller turns into \<open>TypeError\<close>.
\<close>

definition cell_at :: "board \<Rightarrow> int \<Rightarrow> int \<Rightarrow> cell option" where
  "cell_at b r c = (case js_index b r of None \<Rightarrow> None | Some row \<Rightarrow> js_index row c)"

text \<open>A write to a field of \<open>board[r][c]\<close>; used only after the read at \<open>(r, c)\<close> succeeded.\<close>

definition update_cell :: "board \<Rightarrow> int \<Rightarrow> int \<Rightarrow> (cell \<Rightarrow> cell) \<Rightarrow> board" where
  "update_cell b r c f = b[nat r := (b ! nat r)[nat c := f (b ! nat r ! nat c)]]"

text \<open>
  The two nested loops \<open>for dr = -1..1\<close>, \<open>for dc = -1..1\<close> with the \<open>continue\<close> at
  \<open>dr = 0, dc = 0\<close>, as the list of offsets they visit, in order.
\<close>

definition deltas :: "(int \<times> int) list" where
  "deltas = [(dr, dc). dr \<leftarrow> [-1, 0, 1], dc \<leftarrow> [-1, 0, 1], \<not> (dr = 0 \<and> dc = 0)]"

text \<open>
  The two nested loops \<open>for r = 0..rows-1\<close>, \<open>for c = 0..cols-1\<close> as the list of positions
  they visit, in order.
\<close>

definition coords :: "int \<Rightarrow> int \<Rightarrow> (int \<times> int) list" where
  "coords nrows ncols = [(r, c). r \<leftarrow> [0..nrows - 1], c \<leftarrow> [0..ncols - 1]]"

section \<open>Board generator\<close>

text \<open>
  Each loop below is the \<open>fold\<close> of its body over the positions (or offsets) it visits. A
  body takes the value \<open>Inl e\<close> once an exception \<open>e\<close> was raised and passes it on.
\<close>

definition adjacent_step :: "board \<Rightarrow> int \<Rightarrow> int \<Rightarrow> int \<times> int \<Rightarrow> error + nat \<Rightarrow> error + nat" where
  "adjacent_step b row col d acc =
     (case acc of
        Inl e \<Rightarrow> Inl e
      | Inr count \<Rightarrow>
          (let nr = row + fst d; nc = col + snd d in
           if nr \<ge> 0 \<and> nr < int (length b) \<and> nc \<ge> 0 \<and> nc < int (length (b ! 0)) then
             (case cell_at b nr nc of
                None \<Rightarrow> Inl TypeError
              | Some n \<Rightarrow> Inr (if hasMine n then count + 1 else count))
           else Inr count))"

definition countAdjacentMines :: "board \<Rightarrow> int \<Rightarrow> int \<Rightarrow> error + nat" where
  "countAdjacentMines b row col = fold (adjacent_step b row col) deltas (Inr 0)"

text \<open>
  The random source is the sequence of values that successive calls of \<open>Math.random()\<close>
  return: \<open>rnd k\<close> is the value of call number \<open>k\<close>, a double, taken as the real it denotes.
  The product \<open>Math.random() * rows\<close> is the product of two doubles, which is the real product
  rounded to a double and not the real product itself (as doubles, \<open>0.7 * 10\<close> is \<open>7\<close>). The
  double product is a parameter \<open>fmul\<close> of the generator, so that what is proved of the
  generator holds for whatever function the double product is; the runs on concrete inputs
  take for it \<open>double_product\<close>, the IEEE 754 product defined further down. \<open>Math.floor\<close> of a
  double is its floor. The placement loop has no bound: it is a partial function, and
  \<open>None\<close> is the loop that never ends.
\<close>

partial_function (option) place_mines ::
  "(real \<Rightarrow> real \<Rightarrow> real) \<Rightarrow> (nat \<Rightarrow> real) \<Rightarrow> int \<Rightarrow> int \<Rightarrow> int \<Rightarrow> board \<Rightarrow> int \<Rightarrow> nat
     \<Rightarrow> (error + board) option" where
  "place_mines fmul rnd nrows ncols minesCount b placedMines k =
     (if placedMines < minesCount then
        (let r = \<lfloor>fmul (rnd k) (of_int nrows)\<rfloor>; c = \<lfloor>fmul (rnd (k + 1)) (of_int ncols)\<rfloor> in
         case cell_at b r c of
           None \<Rightarrow> Some (Inl TypeError)
         | Some x \<Rightarrow>
             if \<not> hasMine x then
               place_mines fmul rnd nrows ncols minesCount
                 (update_cell b r c (\<lambda>y. y\<lparr>hasMine := True\<rparr>)) (placedMines + 1) (k + 2)
             else place_mines fmul rnd nrows ncols minesCount b placedMines (k + 2))
      else Some (Inr b))"

declare place_mines.simps [code]

definition count_step :: "int \<times> int \<Rightarrow> error + board \<Rightarrow> error + board" where
  "count_step p acc =
     (case acc of
        Inl e \<Rightarrow> Inl e
      | Inr b \<Rightarrow>
          (case cell_at b (fst p) (snd p) of
             None \<Rightarrow> Inl TypeError
           | Some x \<Rightarrow>
               if \<not> hasMine x then
                 (case countAdjacentMines b (fst p) (snd p) of
                    Inl e \<Rightarrow> Inl e
                  | Inr n \<Rightarrow> Inr (update_cell b (fst p) (snd p) (\<lambda>y. y\<lparr>neighborMines := n\<rparr>)))
               else Inr b))"

definition createBoard ::
  "(real \<Rightarrow> real \<Rightarrow> real) \<Rightarrow> (nat \<Rightarrow> real) \<Rightarrow> int \<Rightarrow> int \<Rightarrow> int \<Rightarrow> (error + board) option" where
  "createBoard fmul rnd nrows ncols minesCount =
     (case place_mines fmul rnd nrows ncols minesCount
             (replicate (nat nrows) (replicate (nat ncols) (createCell False))) 0 0 of
        None \<Rightarrow> None
      | Some (Inl e) \<Rightarrow> Some (Inl e)
      | Some (Inr b) \<Rightarrow> Some (fold count_step (coords nrows ncols) (Inr b)))"

definition createGame ::
  "(real \<Rightarrow> real \<Rightarrow> real) \<Rightarrow> (nat \<Rightarrow> real) \<Rightarrow> int \<Rightarrow> int \<Rightarrow> int \<Rightarrow> (error + game) option" where
  "createGame fmul rnd nrows ncols nmines =
     (case createBoard fmul rnd nrows ncols nmines of
        None \<Rightarrow> None
      | Some (Inl e) \<Rightarrow> Some (Inl e)
      | Some (Inr b) \<Rightarrow>
          Some (Inr \<lparr>rows = nrows, cols = ncols, mines = nmines, status = InProgress, board = b\<rparr>))"

definition createSampleBoard :: board where
  "createSampleBoard =
     [[\<lparr>hasMine = False, neighborMines = 1, state = Closed\<rparr>,
       \<lparr>hasMine = True, neighborMines = 0, state = Closed\<rparr>,
       \<lparr>hasMine = False, neighborMines = 2, state = Closed\<rparr>],
      [\<lparr>hasMine = False, neighborMines = 1, state = Closed\<rparr>,
       \<lparr>hasMine = True, neighborMines = 0, state = Closed\<rparr>,
       \<lparr>hasMine = True, neighborMines = 0, state = Closed\<rparr>],
      [\<lparr>hasMine = False, neighborMines = 0, state = Closed\<rparr>,
       \<lparr>hasMine = False, neighborMines = 2, state = Closed\<rparr>,
       \<lparr>hasMine = False, neighborMines = 1, state = Closed\<rparr>]]"

definition sampleGame :: game where
  "sampleGame = \<lparr>rows = 3, cols = 3, mines = 3, status = InProgress, board = createSampleBoard\<rparr>"

section \<open>Game engine\<close>

text \<open>
  The engine functions work on the global \<open>game\<close>. Here each takes the game and returns
  the game it leaves behind together with the exception it raised, if any: an exception in
  an event handler ends the handler, and the game keeps the writes made before it. The
  timer (\<open>firstClickHappened\<close>, \<open>startTimer\<close>, \<open>stopTimer\<close>) and the DOM (\<open>renderBoard\<close>, the
  text written by \<open>updateMinesCounter\<close>) are outside the game object and are not modelled.
\<close>

type_synonym outcome = "error option \<times> game"

definition flag_step :: "game \<Rightarrow> int \<times> int \<Rightarrow> error + nat \<Rightarrow> error + nat" where
  "flag_step g p acc =
     (case acc of
        Inl e \<Rightarrow> Inl e
      | Inr flags \<Rightarrow>
          (case cell_at (board g) (fst p) (snd p) of
             None \<Rightarrow> Inl TypeError
           | Some x \<Rightarrow> Inr (if state x = Flagged then flags + 1 else flags)))"

definition getFlagCount :: "game \<Rightarrow> error + nat" where
  "getFlagCount g = fold (flag_step g) (coords (rows g) (cols g)) (Inr 0)"

text \<open>The number \<open>remaining\<close> that \<open>updateMinesCounter\<close> computes and displays.\<close>

definition updateMinesCounter :: "game \<Rightarrow> error + int" where
  "updateMinesCounter g =
     (case getFlagCount g of
        Inl e \<Rightarrow> Inl e
      | Inr flags \<Rightarrow> Inr (max 0 (mines g - int flags)))"

definition inBounds :: "game \<Rightarrow> int \<Rightarrow> int \<Rightarrow> bool" where
  "inBounds g r c \<longleftrightarrow> r \<ge> 0 \<and> r < rows g \<and> c \<ge> 0 \<and> c < cols g"

text \<open>
  The inner loops of \<open>floodOpen\<close>: the stack after the pushes. The stack is a list whose
  head is the top (\<open>pop\<close> takes the last element of the array, \<open>push\<close> appends one).
\<close>

definition push_step ::
  "game \<Rightarrow> int \<Rightarrow> int \<Rightarrow> int \<times> int \<Rightarrow> error + (int \<times> int) list \<Rightarrow> error + (int \<times> int) list" where
  "push_step g cr cc d acc =
     (case acc of
        Inl e \<Rightarrow> Inl e
      | Inr st \<Rightarrow>
          (let nr = cr + fst d; nc = cc + snd d in
           if inBounds g nr nc then
             (case cell_at (board g) nr nc of
                None \<Rightarrow> Inl TypeError
              | Some n \<Rightarrow> if state n = Closed \<and> \<not> hasMine n then Inr ((nr, nc) # st) else Inr st)
           else Inr st))"

definition push_neighbors ::
  "game \<Rightarrow> int \<Rightarrow> int \<Rightarrow> (int \<times> int) list \<Rightarrow> error + (int \<times> int) list" where
  "push_neighbors g cr cc stack = fold (push_step g cr cc) deltas (Inr stack)"

text \<open>The \<open>while (stack.length)\<close> loop of \<open>floodOpen\<close>; \<open>None\<close> is the loop that never ends.\<close>

partial_function (option) floodOpen_loop :: "game \<Rightarrow> (int \<times> int) list \<Rightarrow> outcome option" where
  "floodOpen_loop g stack =
     (case stack of
        [] \<Rightarrow> Some (None, g)
      | p # rest \<Rightarrow>
          (case cell_at (board g) (fst p) (snd p) of
             None \<Rightarrow> Some (Some TypeError, g)
           | Some x \<Rightarrow>
               if state x \<noteq> Closed \<or> hasMine x then floodOpen_loop g rest
               else
                 (let g' = g\<lparr>board := update_cell (board g) (fst p) (snd p) (\<lambda>y. y\<lparr>state := Open\<rparr>)\<rparr> in
                  if neighborMines x = 0 then
                    (case push_neighbors g' (fst p) (snd p) rest of
                       Inl e \<Rightarrow> Some (Some e, g')
                     | Inr st \<Rightarrow> floodOpen_loop g' st)
                  else floodOpen_loop g' rest)))"

declare floodOpen_loop.simps [code]

definition floodOpen :: "game \<Rightarrow> int \<Rightarrow> int \<Rightarrow> outcome option" where
  "floodOpen g r c = floodOpen_loop g [(r, c)]"

definition reveal_step :: "int \<times> int \<Rightarrow> outcome \<Rightarrow> outcome" where
  "reveal_step p acc =
     (case fst acc of
        Some e \<Rightarrow> acc
      | None \<Rightarrow>
          (let g = snd acc in
           case cell_at (board g) (fst p) (snd p) of
             None \<Rightarrow> (Some TypeError, g)
           | Some x \<Rightarrow>
               if hasMine x
               then (None, g\<lparr>board := update_cell (board g) (fst p) (snd p) (\<lambda>y. y\<lparr>state := Open\<rparr>)\<rparr>)
               else (None, g)))"

definition revealAllMines :: "game \<Rightarrow> outcome" where
  "revealAllMines g = fold reveal_step (coords (rows g) (cols g)) (None, g)"

definition unopened_step :: "game \<Rightarrow> int \<times> int \<Rightarrow> error + nat \<Rightarrow> error + nat" where
  "unopened_step g p acc =
     (case acc of
        Inl e \<Rightarrow> Inl e
      | Inr unopenedSafe \<Rightarrow>
          (case cell_at (board g) (fst p) (snd p) of
             None \<Rightarrow> Inl TypeError
           | Some x \<Rightarrow>
               Inr (if \<not> hasMine x \<and> state x \<noteq> Open then unopenedSafe + 1 else unopenedSafe)))"

definition checkWinCondition :: "game \<Rightarrow> outcome" where
  "checkWinCondition g =
     (case fold (unopened_step g) (coords (rows g) (cols g)) (Inr 0) of
        Inl e \<Rightarrow> (Some e, g)
      | Inr unopenedSafe \<Rightarrow> if unopenedSafe = 0 then (None, g\<lparr>status := Win\<rparr>) else (None, g))"

definition openCell :: "game \<Rightarrow> int \<Rightarrow> int \<Rightarrow> outcome option" where
  "openCell g r c =
     (if status g \<noteq> InProgress then Some (None, g)
      else
        (case cell_at (board g) r c of
           None \<Rightarrow> Some (Some TypeError, g)
         | Some x \<Rightarrow>
             if state x \<noteq> Closed then Some (None, g)
             else if hasMine x then
               Some (revealAllMines
                 (g\<lparr>board := update_cell (board g) r c (\<lambda>y. y\<lparr>state := Open\<rparr>), status := Lose\<rparr>))
             else
               (case (if neighborMines x = 0 then floodOpen g r c
                      else Some (None, g\<lparr>board := update_cell (board g) r c (\<lambda>y. y\<lparr>state := Open\<rparr>)\<rparr>)) of
                  None \<Rightarrow> None
                | Some (Some e, g') \<Rightarrow> Some (Some e, g')
                | Some (None, g') \<Rightarrow> Some (checkWinCondition g'))))"

definition toggleFlag :: "game \<Rightarrow> int \<Rightarrow> int \<Rightarrow> outcome" where
  "toggleFlag g r c =
     (if status g \<noteq> InProgress then (None, g)
      else
        (case cell_at (board g) r c of
           None \<Rightarrow> (Some TypeError, g)
         | Some x \<Rightarrow>
             if state x = Open then (None, g)
             else
               (None, g\<lparr>board := update_cell (board g) r c
                   (\<lambda>y. y\<lparr>state := (if state y = Flagged then Closed else Flagged)\<rparr>)\<rparr>)))"

section \<open>Notions used by the properties\<close>

subsection \<open>Well-formed games and boards\<close>

text \<open>
  A board is \<open>nrows\<close> by \<open>ncols\<close> when it has \<open>nrows\<close> rows of \<open>ncols\<close> cells each. A game is
  well formed when its board is \<open>rows\<close> by \<open>cols\<close>, as every game built by \<open>createGame\<close> and the
  sample game are.
\<close>

definition wf_board :: "int \<Rightarrow> int \<Rightarrow> board \<Rightarrow> bool" where
  "wf_board nrows ncols b \<longleftrightarrow>
     int (length b) = nrows \<and> list_all (\<lambda>row. int (length row) = ncols) b"

definition wf_game :: "game \<Rightarrow> bool" where
  "wf_game g \<longleftrightarrow>
     int (length (board g)) = rows g \<and> list_all (\<lambda>row. int (length row) = cols g) (board g)"

subsection \<open>Positions and neighbours\<close>

text \<open>
  The eight positions around \<open>(r, c)\<close>, on the board or not, in the order of the two offset
  loops; the positions whose cell is Closed and has no mine; the sets of positions that
  the win check, the mines counter and the generator count. \<open>toggled\<close> is the effect of a
  flag toggle on a state.
\<close>

definition neighbors8 :: "int \<Rightarrow> int \<Rightarrow> (int \<times> int) list" where
  "neighbors8 r c = map (\<lambda>d. (r + fst d, c + snd d)) deltas"

definition closed_safe :: "board \<Rightarrow> int \<times> int \<Rightarrow> bool" where
  "closed_safe b p =
     (case cell_at b (fst p) (snd p) of None \<Rightarrow> False | Some x \<Rightarrow> state x = Closed \<and> \<not> hasMine x)"

definition unopened_safe :: "board \<Rightarrow> (int \<times> int) set" where
  "unopened_safe b = {(r, c). \<exists>x. cell_at b r c = Some x \<and> \<not> hasMine x \<and> state x \<noteq> Open}"

definition flagged_positions :: "board \<Rightarrow> (int \<times> int) set" where
  "flagged_positions b = {(r, c). \<exists>x. cell_at b r c = Some x \<and> state x = Flagged}"

definition flaggedCount :: "board \<Rightarrow> nat" where
  "flaggedCount b = card (flagged_positions b)"

definition toggled :: "cell_state \<Rightarrow> cell_state" where
  "toggled s = (case s of Closed \<Rightarrow> Flagged | Flagged \<Rightarrow> Closed | Open \<Rightarrow> Open)"

definition mine_positions :: "board \<Rightarrow> (int \<times> int) set" where
  "mine_positions b = {(r, c). \<exists>x. cell_at b r c = Some x \<and> hasMine x}"

definition adjacent_mines :: "board \<Rightarrow> int \<Rightarrow> int \<Rightarrow> nat" where
  "adjacent_mines b r c = card (set (neighbors8 r c) \<inter> mine_positions b)"

subsection \<open>The flood region\<close>

text \<open>
  The region that a flood-reveal opens. A cell cascades when it is Closed, has no mine and
  has \<open>neighborMines = 0\<close>; the cascade runs from the seed through such cells, by steps to
  one of the eight neighbours; the region is made of the cells of the cascade and of the
  Closed cells without a mine next to one of them.
\<close>

definition zero_cell :: "board \<Rightarrow> int \<times> int \<Rightarrow> bool" where
  "zero_cell b p =
     (case cell_at b (fst p) (snd p) of
        None \<Rightarrow> False
      | Some x \<Rightarrow> state x = Closed \<and> \<not> hasMine x \<and> neighborMines x = 0)"

inductive_set zero_region :: "board \<Rightarrow> int \<times> int \<Rightarrow> (int \<times> int) set" for b seed where
  seed: "zero_cell b seed \<Longrightarrow> seed \<in> zero_region b seed"
| step: "z \<in> zero_region b seed \<Longrightarrow> q \<in> set (neighbors8 (fst z) (snd z)) \<Longrightarrow> zero_cell b q
           \<Longrightarrow> q \<in> zero_region b seed"

definition flood_region :: "board \<Rightarrow> int \<times> int \<Rightarrow> (int \<times> int) set" where
  "flood_region b seed =
     {p. closed_safe b p \<and>
         (p \<in> zero_region b seed \<or> (\<exists>z\<in>zero_region b seed. p \<in> set (neighbors8 (fst z) (snd z))))}"

text \<open>
  For the proofs about the work-list loop: the Closed positions (their number goes down at
  every opening), what the loop may change between two games (\<open>flood_frame\<close>: nothing but
  Closed cells without a mine becoming Open), the positions opened since the start, and
  the invariant of the loop.
\<close>

definition closed_positions :: "board \<Rightarrow> (int \<times> int) set" where
  "closed_positions b = {(r, c). \<exists>x. cell_at b r c = Some x \<and> state x = Closed}"

definition flood_frame :: "game \<Rightarrow> game \<Rightarrow> bool" where
  "flood_frame g0 g \<longleftrightarrow>
     rows g = rows g0 \<and> cols g = cols g0 \<and> mines g = mines g0 \<and> status g = status g0 \<and>
     map length (board g) = map length (board g0) \<and>
     (\<forall>r c. cell_at (board g) r c = cell_at (board g0) r c \<or>
        (\<exists>x. cell_at (board g0) r c = Some x \<and> state x = Closed \<and> \<not> hasMine x \<and>
             cell_at (board g) r c = Some (x\<lparr>state := Open\<rparr>)))"

definition opened_since :: "game \<Rightarrow> game \<Rightarrow> (int \<times> int) set" where
  "opened_since g0 g = {p. closed_safe (board g0) p \<and> \<not> closed_safe (board g) p}"

definition flood_inv :: "game \<Rightarrow> int \<times> int \<Rightarrow> game \<Rightarrow> (int \<times> int) list \<Rightarrow> bool" where
  "flood_inv g0 seed g stack \<longleftrightarrow>
     flood_frame g0 g \<and>
     set stack \<subseteq> flood_region (board g0) seed \<and>
     opened_since g0 g \<subseteq> flood_region (board g0) seed \<and>
     (\<forall>z q. z \<in> opened_since g0 g \<and> zero_cell (board g0) z \<and>
            q \<in> set (neighbors8 (fst z) (snd z)) \<and> closed_safe (board g0) q
            \<longrightarrow> q \<in> opened_since g0 g \<or> q \<in> set stack) \<and>
     (seed \<in> opened_since g0 g \<or> seed \<in> set stack)"

subsection \<open>The wording of the specification\<close>

text \<open>
  For comparison with the flood region: a zero-neighbor cell is a cell without a mine whose
  \<open>neighborMines\<close> is 0, whatever its state; the stated region of a seed is what can be
  reached from it through zero-neighbor cells; a zero path is a list of zero-neighbor
  cells, each one a neighbour of the one before.
\<close>

definition zero_neighbor_cell :: "board \<Rightarrow> int \<times> int \<Rightarrow> bool" where
  "zero_neighbor_cell b p =
     (case cell_at b (fst p) (snd p) of
        None \<Rightarrow> False
      | Some x \<Rightarrow> \<not> hasMine x \<and> neighborMines x = 0)"

inductive_set stated_zero_region :: "board \<Rightarrow> int \<times> int \<Rightarrow> (int \<times> int) set" for b seed where
  seed: "zero_neighbor_cell b seed \<Longrightarrow> seed \<in> stated_zero_region b seed"
| step: "z \<in> stated_zero_region b seed \<Longrightarrow> q \<in> set (neighbors8 (fst z) (snd z))
           \<Longrightarrow> zero_neighbor_cell b q \<Longrightarrow> q \<in> stated_zero_region b seed"

fun linked :: "(int \<times> int) list \<Rightarrow> bool" where
  "linked [] = True"
| "linked [p] = True"
| "linked (p # q # ps) = (q \<in> set (neighbors8 (fst p) (snd p)) \<and> linked (q # ps))"

definition zero_path :: "board \<Rightarrow> int \<times> int \<Rightarrow> int \<times> int \<Rightarrow> (int \<times> int) list \<Rightarrow> bool" where
  "zero_path b s t ps \<longleftrightarrow>
     ps \<noteq> [] \<and> hd ps = s \<and> last ps = t \<and> list_all (zero_neighbor_cell b) ps \<and> linked ps"

subsection \<open>The random source\<close>

text \<open>
  Iteration \<open>i\<close> of the placement loop (counted from 0) reads the random values number
  \<open>2 i\<close> and \<open>2 i + 1\<close> and draws the position \<open>draw i\<close>, computed with the double product
  \<open>fmul\<close> as the loop computes it; \<open>drawn n\<close> is the set of positions drawn by the first \<open>n\<close>
  iterations, and \<open>on_board\<close> the set of positions of a board. A board is fresh when all its
  cells are Closed with \<open>neighborMines = 0\<close>, as during the placement.
\<close>

definition draw :: "(real \<Rightarrow> real \<Rightarrow> real) \<Rightarrow> (nat \<Rightarrow> real) \<Rightarrow> int \<Rightarrow> int \<Rightarrow> nat \<Rightarrow> int \<times> int" where
  "draw fmul rnd nrows ncols i =
     (\<lfloor>fmul (rnd (2 * i)) (of_int nrows)\<rfloor>, \<lfloor>fmul (rnd (2 * i + 1)) (of_int ncols)\<rfloor>)"

definition drawn ::
  "(real \<Rightarrow> real \<Rightarrow> real) \<Rightarrow> (nat \<Rightarrow> real) \<Rightarrow> int \<Rightarrow> int \<Rightarrow> nat \<Rightarrow> (int \<times> int) set" where
  "drawn fmul rnd nrows ncols n = draw fmul rnd nrows ncols ` {..<n}"

definition on_board :: "int \<Rightarrow> int \<Rightarrow> (int \<times> int) set" where
  "on_board nrows ncols = {0..<nrows} \<times> {0..<ncols}"

definition fresh :: "board \<Rightarrow> bool" where
  "fresh b \<longleftrightarrow> (\<forall>r c x. cell_at b r c = Some x \<longrightarrow> state x = Closed \<and> neighborMines x = 0)"

subsection \<open>The double product\<close>

text \<open>
  The product of two doubles in IEEE 754 arithmetic (binary64, rounding to nearest, ties to
  even), on the reals that the doubles denote: the real product \<open>x\<close> is rounded to the
  nearest multiple of \<open>2 ^ (e - 52)\<close>, where \<open>2 ^ e \<le> |x| < 2 ^ (e + 1)\<close> and \<open>e\<close> is at least
  \<open>- 1022\<close> (below, the doubles are subnormal and evenly spaced); of two nearest multiples,
  the even one is taken. \<open>ilog2 y\<close> is the \<open>e\<close> of a positive \<open>y\<close>. The overflow to \<open>Infinity\<close>,
  from \<open>2 ^ 1024\<close> on, is not modelled.
\<close>

definition round_half_even :: "real \<Rightarrow> int" where
  "round_half_even z =
     (let f = \<lfloor>z\<rfloor>; d = z - of_int f in
      if d < 1 / 2 then f else if 1 / 2 < d then f + 1 else if even f then f else f + 1)"

definition ilog2 :: "real \<Rightarrow> int" where
  "ilog2 y = (if 1 \<le> y then bitlen \<lfloor>y\<rfloor> - 1 else - bitlen (\<lceil>1 / y\<rceil> - 1))"

definition pow2 :: "int \<Rightarrow> real" where
  "pow2 e = (if 0 \<le> e then 2 ^ nat e else 1 / 2 ^ nat (- e))"

definition round_double :: "real \<Rightarrow> real" where
  "round_double x =
     (if x = 0 then 0
      else
        (let e = max (- 1022) (ilog2 \<bar>x\<bar>); q = pow2 (e - 52) in
         sgn x * (q * of_int (round_half_even (\<bar>x\<bar> / q)))))"

definition double_product :: "real \<Rightarrow> real \<Rightarrow> real" where
  "double_product u x = round_double (u * x)"

subsection \<open>Concrete sources and games\<close>

text \<open>
  Inputs on which the properties are run. The source \<open>zero_source\<close> always returns 0; on a
  board of 2 by 2, \<open>diagonal_source\<close> draws \<open>(0, 0)\<close> twice and \<open>(1, 1)\<close> from then on, and
  \<open>full_source\<close> draws the four positions in turn. The games are a game of one cell without
  a mine, states of the sample game and a row of three cells.
\<close>

definition zero_source :: "nat \<Rightarrow> real" where
  "zero_source k = 0"

definition diagonal_source :: "nat \<Rightarrow> real" where
  "diagonal_source k = (if k < 4 then 0 else 1 / 2)"

definition full_source :: "nat \<Rightarrow> real" where
  "full_source k = (if k = 3 \<or> k = 4 \<or> k = 6 \<or> k = 7 then 1 / 2 else 0)"

definition tinyGame :: game where
  "tinyGame = \<lparr>rows = 1, cols = 1, mines = 0, status = InProgress, board = [[createCell False]]\<rparr>"

definition lostGame :: game where
  "lostGame = \<lparr>rows = 3, cols = 3, mines = 3, status = Lose, board =
     [[\<lparr>hasMine = False, neighborMines = 1, state = Closed\<rparr>,
       \<lparr>hasMine = True, neighborMines = 0, state = Open\<rparr>,
       \<lparr>hasMine = False, neighborMines = 2, state = Closed\<rparr>],
      [\<lparr>hasMine = False, neighborMines = 1, state = Closed\<rparr>,
       \<lparr>hasMine = True, neighborMines = 0, state = Open\<rparr>,
       \<lparr>hasMine = True, neighborMines = 0, state = Open\<rparr>],
      [\<lparr>hasMine = False, neighborMines = 0, state = Closed\<rparr>,
       \<lparr>hasMine = False, neighborMines = 2, state = Closed\<rparr>,
       \<lparr>hasMine = False, neighborMines = 1, state = Closed\<rparr>]]\<rparr>"

definition openedGame :: game where
  "openedGame = \<lparr>rows = 3, cols = 3, mines = 3, status = InProgress, board =
     [[\<lparr>hasMine = False, neighborMines = 1, state = Closed\<rparr>,
       \<lparr>hasMine = True, neighborMines = 0, state = Closed\<rparr>,
       \<lparr>hasMine = False, neighborMines = 2, state = Closed\<rparr>],
      [\<lparr>hasMine = False, neighborMines = 1, state = Open\<rparr>,
       \<lparr>hasMine = True, neighborMines = 0, state = Flagged\<rparr>,
       \<lparr>hasMine = True, neighborMines = 0, state = Closed\<rparr>],
      [\<lparr>hasMine = False, neighborMines = 0, state = Open\<rparr>,
       \<lparr>hasMine = False, neighborMines = 2, state = Open\<rparr>,
       \<lparr>hasMine = False, neighborMines = 1, state = Closed\<rparr>]]\<rparr>"

definition flaggedSample :: game where
  "flaggedSample = \<lparr>rows = 3, cols = 3, mines = 3, status = InProgress, board =
     [[\<lparr>hasMine = False, neighborMines = 1, state = Flagged\<rparr>,
       \<lparr>hasMine = True, neighborMines = 0, state = Closed\<rparr>,
       \<lparr>hasMine = False, neighborMines = 2, state = Closed\<rparr>],
      [\<lparr>hasMine = False, neighborMines = 1, state = Open\<rparr>,
       \<lparr>hasMine = True, neighborMines = 0, state = Closed\<rparr>,
       \<lparr>hasMine = True, neighborMines = 0, state = Flagged\<rparr>],
      [\<lparr>hasMine = False, neighborMines = 0, state = Closed\<rparr>,
       \<lparr>hasMine = False, neighborMines = 2, state = Closed\<rparr>,
       \<lparr>hasMine = False, neighborMines = 1, state = Closed\<rparr>]]\<rparr>"

definition flaggedRow :: game where
  "flaggedRow = \<lparr>rows = 1, cols = 3, mines = 0, status = InProgress, board =
     [[\<lparr>hasMine = False, neighborMines = 0, state = Closed\<rparr>,
       \<lparr>hasMine = False, neighborMines = 0, state = Flagged\<rparr>,
       \<lparr>hasMine = False, neighborMines = 0, state = Closed\<rparr>]]\<rparr>"

section \<open>Basic facts about boards and loops\<close>

lemma cell_at_Some_iff:
  "cell_at b r c = Some x \<longleftrightarrow>
     0 \<le> r \<and> r < int (length b) \<and> 0 \<le> c \<and> c < int (length (b ! nat r)) \<and> b ! nat r ! nat c = x"
  by (auto simp: cell_at_def js_index_def split: option.splits)

lemma cell_at_None_iff:
  "cell_at b r c = None \<longleftrightarrow>
     \<not> (0 \<le> r \<and> r < int (length b) \<and> 0 \<le> c \<and> c < int (length (b ! nat r)))"
  by (auto simp: cell_at_def js_index_def split: option.splits)

lemma js_index_update:
  assumes "0 \<le> i"
  shows "js_index (xs[nat i := y]) j =
           (if j = i \<and> i < int (length xs) then Some y else js_index xs j)"
proof (cases "0 \<le> j \<and> j < int (length xs)")
  case True
  then have "(nat j = nat i) = (j = i)" using assms by auto
  then show ?thesis using True by (auto simp: js_index_def nth_list_update)
next
  case False
  then show ?thesis using assms by (auto simp: js_index_def)
qed

lemma cell_at_update_cell:
  assumes "cell_at b r c = Some x"
  shows "cell_at (update_cell b r c f) r' c' =
           (if r' = r \<and> c' = c then Some (f x) else cell_at b r' c')"
proof -
  from assms have r: "0 \<le> r" "r < int (length b)" and c: "0 \<le> c" "c < int (length (b ! nat r))"
    and x: "b ! nat r ! nat c = x"
    by (auto simp: cell_at_Some_iff)
  have row: "js_index b r = Some (b ! nat r)"
    using r by (simp add: js_index_def)
  show ?thesis
    unfolding cell_at_def update_cell_def js_index_update [OF r(1)]
    using r c x row by (simp add: js_index_update [OF c(1)])
qed

lemma map_length_update_cell: "map length (update_cell b r c f) = map length b"
proof (cases "nat r < length b")
  case True
  then have "(map length b)[nat r := length (b ! nat r)] = map length b"
    by (metis length_map list_update_id nth_map)
  then show ?thesis by (simp add: update_cell_def map_update)
next
  case False
  then have "length b \<le> nat r" by simp
  then have "b[nat r := (b ! nat r)[nat c := f (b ! nat r ! nat c)]] = b"
    by (rule list_update_beyond)
  then show ?thesis by (simp add: update_cell_def)
qed

lemma length_update_cell: "length (update_cell b r c f) = length b"
  by (simp add: update_cell_def)

lemma wf_game_cell_at_None: "wf_game g \<Longrightarrow> cell_at (board g) r c = None \<longleftrightarrow> \<not> inBounds g r c"
  by (auto simp: wf_game_def cell_at_None_iff inBounds_def list_all_length)

lemma wf_game_update_cell:
  assumes "wf_game g"
  shows "wf_game (g\<lparr>board := update_cell (board g) r c f\<rparr>)"
proof -
  have "list_all (\<lambda>n. int n = cols g) (map length (update_cell (board g) r c f))"
    using assms unfolding map_length_update_cell by (simp add: wf_game_def list_all_iff)
  then show ?thesis using assms
    by (simp add: wf_game_def length_update_cell list_all_iff)
qed

lemma set_pairs: "set (concat (map (\<lambda>x. map (Pair x) ys) xs)) = set xs \<times> set ys"
  by auto

lemma set_coords: "set (coords nr nc) = {(r, c). 0 \<le> r \<and> r < nr \<and> 0 \<le> c \<and> c < nc}"
  unfolding coords_def set_pairs by auto

lemma distinct_pairs:
  "distinct xs \<Longrightarrow> distinct ys \<Longrightarrow> distinct (concat (map (\<lambda>x. map (Pair x) ys) xs))"
  by (induction xs) (auto simp: distinct_map inj_on_def)

lemma distinct_coords: "distinct (coords nr nc)"
  unfolding coords_def by (rule distinct_pairs) simp_all

lemma deltas_eq:
  "deltas = [(-1, -1), (-1, 0), (-1, 1), (0, -1), (0, 1), (1, -1), (1, 0), (1, 1)]"
  by (simp add: deltas_def)

lemma abs_le_1_iff: "\<bar>d\<bar> \<le> 1 \<longleftrightarrow> d = -1 \<or> d = 0 \<or> d = (1::int)"
  by arith

lemma in_set_deltas:
  "(dr, dc) \<in> set deltas \<longleftrightarrow> \<bar>dr\<bar> \<le> 1 \<and> \<bar>dc\<bar> \<le> 1 \<and> \<not> (dr = 0 \<and> dc = 0)"
  unfolding deltas_eq abs_le_1_iff by auto

subsection \<open>The work-list loop ends\<close>

lemma closed_positions_subset:
  "closed_positions b \<subseteq> {0..<int (length b)} \<times> {0..<int (sum_list (map length b))}"
proof
  fix p assume "p \<in> closed_positions b"
  then obtain r c x where p: "p = (r, c)" and x: "cell_at b r c = Some x"
    by (auto simp: closed_positions_def)
  then have r: "0 \<le> r" "nat r < length b" and c: "0 \<le> c" "nat c < length (b ! nat r)"
    by (auto simp: cell_at_Some_iff)
  have "length (b ! nat r) \<in> set (map length b)" using r by simp
  then have "length (b ! nat r) \<le> sum_list (map length b)" by (simp add: member_le_sum_list)
  then show "p \<in> {0..<int (length b)} \<times> {0..<int (sum_list (map length b))}"
    using p r c by auto
qed

lemma finite_closed_positions: "finite (closed_positions b)"
  by (rule finite_subset [OF closed_positions_subset]) simp

lemma closed_positions_open:
  assumes "cell_at b r c = Some x" "state x = Closed"
  shows "closed_positions (update_cell b r c (\<lambda>y. y\<lparr>state := Open\<rparr>)) = closed_positions b - {(r, c)}"
  using assms by (auto simp: closed_positions_def cell_at_update_cell)

lemma card_closed_positions_open:
  assumes "cell_at b r c = Some x" "state x = Closed"
  shows "card (closed_positions (update_cell b r c (\<lambda>y. y\<lparr>state := Open\<rparr>))) < card (closed_positions b)"
proof -
  have "(r, c) \<in> closed_positions b" using assms by (auto simp: closed_positions_def)
  then have "card (closed_positions b - {(r, c)}) < card (closed_positions b)"
    by (rule card_Diff1_less [OF finite_closed_positions])
  then show ?thesis
    unfolding closed_positions_open [OF assms] .
qed

text \<open>Total-correctness rule for the work-list loop.\<close>

lemma floodOpen_loop_rule:
  assumes init: "I g stack"
    and stop: "\<And>g. I g [] \<Longrightarrow> Q (None, g)"
    and undef: "\<And>g p rest. I g (p # rest) \<Longrightarrow> cell_at (board g) (fst p) (snd p) = None
                  \<Longrightarrow> Q (Some TypeError, g)"
    and skip: "\<And>g p rest x. I g (p # rest) \<Longrightarrow> cell_at (board g) (fst p) (snd p) = Some x
                  \<Longrightarrow> state x \<noteq> Closed \<or> hasMine x \<Longrightarrow> I g rest"
    and leaf: "\<And>g p rest x. I g (p # rest) \<Longrightarrow> cell_at (board g) (fst p) (snd p) = Some x
                  \<Longrightarrow> state x = Closed \<Longrightarrow> \<not> hasMine x \<Longrightarrow> neighborMines x \<noteq> 0
                  \<Longrightarrow> I (g\<lparr>board := update_cell (board g) (fst p) (snd p) (\<lambda>y. y\<lparr>state := Open\<rparr>)\<rparr>) rest"
    and push: "\<And>g p rest x st. I g (p # rest) \<Longrightarrow> cell_at (board g) (fst p) (snd p) = Some x
                  \<Longrightarrow> state x = Closed \<Longrightarrow> \<not> hasMine x \<Longrightarrow> neighborMines x = 0
                  \<Longrightarrow> push_neighbors (g\<lparr>board := update_cell (board g) (fst p) (snd p) (\<lambda>y. y\<lparr>state := Open\<rparr>)\<rparr>)
                        (fst p) (snd p) rest = Inr st
                  \<Longrightarrow> I (g\<lparr>board := update_cell (board g) (fst p) (snd p) (\<lambda>y. y\<lparr>state := Open\<rparr>)\<rparr>) st"
    and throw: "\<And>g p rest x e. I g (p # rest) \<Longrightarrow> cell_at (board g) (fst p) (snd p) = Some x
                  \<Longrightarrow> state x = Closed \<Longrightarrow> \<not> hasMine x \<Longrightarrow> neighborMines x = 0
                  \<Longrightarrow> push_neighbors (g\<lparr>board := update_cell (board g) (fst p) (snd p) (\<lambda>y. y\<lparr>state := Open\<rparr>)\<rparr>)
                        (fst p) (snd p) rest = Inl e
                  \<Longrightarrow> Q (Some e, g\<lparr>board := update_cell (board g) (fst p) (snd p) (\<lambda>y. y\<lparr>state := Open\<rparr>)\<rparr>)"
  shows "\<exists>res. floodOpen_loop g stack = Some res \<and> Q res"
  using init
proof (induction "(card (closed_positions (board g)), length stack)" arbitrary: g stack
    rule: wf_induct_rule [OF wf_less_than [THEN wf_lex_prod, OF wf_less_than]])
  case less: 1
  show ?case
  proof (cases stack)
    case Nil
    then show ?thesis using stop less.prems by (subst floodOpen_loop.simps) simp
  next
    case (Cons p rest)
    show ?thesis
    proof (cases "cell_at (board g) (fst p) (snd p)")
      case None
      then show ?thesis using undef less.prems Cons
        by (subst floodOpen_loop.simps) simp
    next
      case (Some x)
      let ?g' = "g\<lparr>board := update_cell (board g) (fst p) (snd p) (\<lambda>y. y\<lparr>state := Open\<rparr>)\<rparr>"
      show ?thesis
      proof (cases "state x \<noteq> Closed \<or> hasMine x")
        case True
        have "I g rest" using skip less.prems Cons Some True by blast
        moreover have "((card (closed_positions (board g)), length rest),
                        (card (closed_positions (board g)), length stack)) \<in> less_than <*lex*> less_than"
          using Cons by simp
        ultimately have "\<exists>res. floodOpen_loop g rest = Some res \<and> Q res"
          using less.hyps by blast
        then show ?thesis using Cons Some True
          by (subst floodOpen_loop.simps) simp
      next
        case False
        then have x: "state x = Closed" "\<not> hasMine x" by auto
        have dec: "\<And>st. ((card (closed_positions (board ?g')), length st),
                        (card (closed_positions (board g)), length stack)) \<in> less_than <*lex*> less_than"
          using card_closed_positions_open [OF Some x(1)] by simp
        show ?thesis
        proof (cases "neighborMines x = 0")
          case nz: False
          have "I ?g' rest" using leaf less.prems Cons Some x nz by blast
          then have "\<exists>res. floodOpen_loop ?g' rest = Some res \<and> Q res"
            using less.hyps dec by blast
          then show ?thesis using Cons Some x nz
            by (subst floodOpen_loop.simps) simp
        next
          case z: True
          show ?thesis
          proof (cases "push_neighbors ?g' (fst p) (snd p) rest")
            case (Inl e)
            then have "Q (Some e, ?g')" using throw less.prems Cons Some x z by blast
            then show ?thesis using Cons Some x z Inl
              by (subst floodOpen_loop.simps) simp
          next
            case (Inr st)
            then have "I ?g' st" using push less.prems Cons Some x z by blast
            then have "\<exists>res. floodOpen_loop ?g' st = Some res \<and> Q res"
              using less.hyps dec by blast
            then show ?thesis using Cons Some x z Inr
              by (subst floodOpen_loop.simps) simp
          qed
        qed
      qed
    qed
  qed
qed

lemma floodOpen_loop_returns: "\<exists>res. floodOpen_loop g stack = Some res"
  using floodOpen_loop_rule [of "\<lambda>_ _. True" g stack "\<lambda>_. True"] by simp

lemma flood_frame_refl: "flood_frame g g"
  by (simp add: flood_frame_def)

lemma flood_frame_open:
  assumes "flood_frame g0 g" "cell_at (board g) r c = Some x" "state x = Closed" "\<not> hasMine x"
  shows "flood_frame g0 (g\<lparr>board := update_cell (board g) r c (\<lambda>y. y\<lparr>state := Open\<rparr>)\<rparr>)"
proof -
  have cells: "cell_at (update_cell (board g) r c (\<lambda>y. y\<lparr>state := Open\<rparr>)) r' c' =
                 cell_at (board g0) r' c' \<or>
               (\<exists>y. cell_at (board g0) r' c' = Some y \<and> state y = Closed \<and> \<not> hasMine y \<and>
                    cell_at (update_cell (board g) r c (\<lambda>y. y\<lparr>state := Open\<rparr>)) r' c' =
                      Some (y\<lparr>state := Open\<rparr>))" for r' c'
  proof (cases "r' = r \<and> c' = c")
    case True
    from assms(1) have "cell_at (board g) r c = cell_at (board g0) r c \<or>
        (\<exists>y. cell_at (board g0) r c = Some y \<and> state y = Closed \<and> \<not> hasMine y \<and>
             cell_at (board g) r c = Some (y\<lparr>state := Open\<rparr>))"
      unfolding flood_frame_def by blast
    then have "cell_at (board g0) r c = Some x"
      using assms(2,3) by auto
    then show ?thesis using True assms(2,3,4)
      by (simp add: cell_at_update_cell [OF assms(2)])
  next
    case False
    then have "cell_at (update_cell (board g) r c (\<lambda>y. y\<lparr>state := Open\<rparr>)) r' c' =
               cell_at (board g) r' c'"
      unfolding cell_at_update_cell [OF assms(2)] by auto
    then show ?thesis using assms(1) unfolding flood_frame_def by metis
  qed
  show ?thesis
    using assms(1) cells by (simp add: flood_frame_def map_length_update_cell)
qed

lemma floodOpen_loop_frame: "\<exists>res. floodOpen_loop g stack = Some res \<and> flood_frame g (snd res)"
  by (rule floodOpen_loop_rule [where I = "\<lambda>g1 st. flood_frame g g1"])
     (simp_all add: flood_frame_refl flood_frame_open)

lemma floodOpen_loop_skip:
  assumes "cell_at (board g) (fst p) (snd p) = Some x" "state x \<noteq> Closed \<or> hasMine x"
  shows "floodOpen_loop g (p # rest) = floodOpen_loop g rest"
  using assms by (subst floodOpen_loop.simps) auto

subsection \<open>The work list on a well-formed game\<close>

lemma push_step_Inl: "fold (push_step g cr cc) ds (Inl e) = Inl e"
  by (induction ds) (simp_all add: push_step_def)

lemma fold_push_step_wf:
  assumes "wf_game g"
  shows "\<exists>st. fold (push_step g cr cc) ds (Inr stack) = Inr st \<and>
           set st = set stack \<union>
             {q \<in> set (map (\<lambda>d. (cr + fst d, cc + snd d)) ds). closed_safe (board g) q}"
proof (induction ds arbitrary: stack)
  case Nil
  then show ?case by simp
next
  case (Cons d ds)
  let ?q = "(cr + fst d, cc + snd d)"
  show ?case
  proof (cases "cell_at (board g) (cr + fst d) (cc + snd d)")
    case None
    then have nb: "\<not> inBounds g (cr + fst d) (cc + snd d)"
      using assms by (simp add: wf_game_cell_at_None)
    have "\<not> closed_safe (board g) ?q" using None by (simp add: closed_safe_def)
    moreover have "push_step g cr cc d (Inr stack) = Inr stack"
      using nb by (simp add: push_step_def)
    ultimately show ?thesis using Cons.IH [of stack] by auto
  next
    case (Some n)
    then have ib: "inBounds g (cr + fst d) (cc + snd d)"
      using assms wf_game_cell_at_None [of g "cr + fst d" "cc + snd d"] by simp
    show ?thesis
    proof (cases "state n = Closed \<and> \<not> hasMine n")
      case True
      then have "closed_safe (board g) ?q" using Some by (simp add: closed_safe_def)
      moreover have "push_step g cr cc d (Inr stack) = Inr (?q # stack)"
        using ib Some True by (simp add: push_step_def)
      ultimately show ?thesis using Cons.IH [of "?q # stack"] by auto
    next
      case False
      then have "\<not> closed_safe (board g) ?q" using Some by (auto simp: closed_safe_def)
      moreover have "push_step g cr cc d (Inr stack) = Inr stack"
        using ib Some False by (auto simp: push_step_def)
      ultimately show ?thesis using Cons.IH [of stack] by auto
    qed
  qed
qed

lemma push_neighbors_wf:
  assumes "wf_game g"
  shows "\<exists>st. push_neighbors g cr cc stack = Inr st \<and>
           set st = set stack \<union> {q \<in> set (neighbors8 cr cc). closed_safe (board g) q}"
  unfolding push_neighbors_def neighbors8_def by (rule fold_push_step_wf [OF assms])

lemma closed_safe_inBounds:
  "wf_game g \<Longrightarrow> closed_safe (board g) p \<Longrightarrow> inBounds g (fst p) (snd p)"
  using wf_game_cell_at_None [of g "fst p" "snd p"]
  by (auto simp: closed_safe_def split: option.splits)

lemma flood_frame_wf: "flood_frame g0 g \<Longrightarrow> wf_game g0 \<Longrightarrow> wf_game g"
proof -
  assume fr: "flood_frame g0 g" and wf: "wf_game g0"
  from fr have len: "map length (board g) = map length (board g0)"
    and dims: "rows g = rows g0" "cols g = cols g0"
    by (simp_all add: flood_frame_def)
  from len have "length (board g) = length (board g0)" by (metis length_map)
  moreover have "list_all (\<lambda>n. int n = cols g0) (map length (board g))"
    using wf unfolding len by (simp add: wf_game_def list_all_iff)
  ultimately show ?thesis using wf dims by (simp add: wf_game_def list_all_iff)
qed

lemma flood_frame_cell_at_None:
  "flood_frame g0 g \<Longrightarrow> cell_at (board g) r c = None \<longleftrightarrow> cell_at (board g0) r c = None"
  unfolding flood_frame_def by (metis option.distinct(1))

text \<open>On a well-formed game, with a work list of positions of the board, no read is out of range.\<close>

lemma floodOpen_loop_wf:
  assumes wf: "wf_game g" and st: "\<forall>p\<in>set stack. inBounds g (fst p) (snd p)"
  shows "\<exists>g'. floodOpen_loop g stack = Some (None, g') \<and> flood_frame g g'"
proof -
  have "\<exists>res. floodOpen_loop g stack = Some res \<and> (fst res = None \<and> flood_frame g (snd res))"
  proof (rule floodOpen_loop_rule
      [where I = "\<lambda>g1 st. flood_frame g g1 \<and> (\<forall>p\<in>set st. inBounds g (fst p) (snd p))"],
      goal_cases)
    case 1
    show ?case using st by (simp add: flood_frame_refl)
  next
    case (2 g1)
    then show ?case by simp
  next
    case (3 g1 p rest)
    then have "cell_at (board g) (fst p) (snd p) = None"
      using flood_frame_cell_at_None [of g g1 "fst p" "snd p"] by simp
    then show ?case using 3 wf by (simp add: wf_game_cell_at_None)
  next
    case (4 g1 p rest x)
    then show ?case by simp
  next
    case (5 g1 p rest x)
    then show ?case by (simp add: flood_frame_open)
  next
    case (6 g1 p rest x st')
    let ?g' = "g1\<lparr>board := update_cell (board g1) (fst p) (snd p) (\<lambda>y. y\<lparr>state := Open\<rparr>)\<rparr>"
    have fr: "flood_frame g ?g'" using 6 by (simp add: flood_frame_open)
    then have wf': "wf_game ?g'" using wf by (rule flood_frame_wf)
    have dims: "rows ?g' = rows g" "cols ?g' = cols g" using fr by (simp_all add: flood_frame_def)
    from push_neighbors_wf [OF wf', of "fst p" "snd p" rest] 6(6)
    have "set st' = set rest \<union> {q \<in> set (neighbors8 (fst p) (snd p)). closed_safe (board ?g') q}"
      by auto
    moreover have "inBounds g (fst q) (snd q)" if "closed_safe (board ?g') q" for q
      using closed_safe_inBounds [OF wf' that] dims by (simp add: inBounds_def)
    ultimately show ?case using fr 6(1) by auto
  next
    case (7 g1 p rest x e)
    let ?g' = "g1\<lparr>board := update_cell (board g1) (fst p) (snd p) (\<lambda>y. y\<lparr>state := Open\<rparr>)\<rparr>"
    have fr: "flood_frame g ?g'" using 7 by (simp add: flood_frame_open)
    then have wf': "wf_game ?g'" using wf by (rule flood_frame_wf)
    from push_neighbors_wf [OF wf', of "fst p" "snd p" rest] 7(6)
    show ?case by auto
  qed
  then show ?thesis by (metis prod.collapse)
qed

subsection \<open>The counting and revealing loops\<close>

lemma wf_game_cell_at_coords:
  assumes "wf_game g"
  shows "(\<exists>x. cell_at (board g) r c = Some x) \<longleftrightarrow> (r, c) \<in> set (coords (rows g) (cols g))"
  using wf_game_cell_at_None [OF assms, of r c] by (auto simp: set_coords inBounds_def)

lemma fold_count_step:
  assumes "\<forall>p\<in>set ps. \<exists>x. cell_at b (fst p) (snd p) = Some x"
    and step: "\<And>p n x. cell_at b (fst p) (snd p) = Some x \<Longrightarrow>
                 f p (Inr n) = Inr (if P x then n + 1 else n)"
  shows "fold f ps (Inr n) =
           Inr (n + length (filter (\<lambda>p. \<exists>x. cell_at b (fst p) (snd p) = Some x \<and> P x) ps))"
  using assms(1)
proof (induction ps arbitrary: n)
  case Nil
  then show ?case by simp
next
  case (Cons p ps)
  then obtain x where x: "cell_at b (fst p) (snd p) = Some x" by auto
  show ?case using Cons x step [OF x] by simp
qed

lemma count_coords:
  assumes "wf_game g"
  shows "length (filter (\<lambda>p. \<exists>x. cell_at (board g) (fst p) (snd p) = Some x \<and> P x)
           (coords (rows g) (cols g))) =
         card {(r, c). \<exists>x. cell_at (board g) r c = Some x \<and> P x}"
proof -
  let ?ps = "coords (rows g) (cols g)"
  let ?Q = "\<lambda>p. \<exists>x. cell_at (board g) (fst p) (snd p) = Some x \<and> P x"
  have "set (filter ?Q ?ps) = {(r, c). \<exists>x. cell_at (board g) r c = Some x \<and> P x}"
    using wf_game_cell_at_coords [OF assms] by auto
  moreover have "distinct (filter ?Q ?ps)" by (simp add: distinct_coords)
  then have "card (set (filter ?Q ?ps)) = length (filter ?Q ?ps)" by (rule distinct_card)
  ultimately show ?thesis by simp
qed

lemma getFlagCount_wf:
  assumes "wf_game g"
  shows "getFlagCount g = Inr (flaggedCount (board g))"
proof -
  have "fold (flag_step g) (coords (rows g) (cols g)) (Inr 0) =
          Inr (0 + length (filter (\<lambda>p. \<exists>x. cell_at (board g) (fst p) (snd p) = Some x \<and>
                 state x = Flagged) (coords (rows g) (cols g))))"
  proof (rule fold_count_step)
    show "\<forall>p\<in>set (coords (rows g) (cols g)). \<exists>x. cell_at (board g) (fst p) (snd p) = Some x"
      using wf_game_cell_at_coords [OF assms] by auto
  qed (simp add: flag_step_def)
  then show ?thesis
    by (simp add: getFlagCount_def flaggedCount_def flagged_positions_def count_coords [OF assms])
qed

lemma finite_positions: "finite {(r, c). \<exists>x. cell_at b r c = Some x \<and> P x}"
proof (rule finite_subset)
  show "{(r, c). \<exists>x. cell_at b r c = Some x \<and> P x}
          \<subseteq> {0..<int (length b)} \<times> {0..<int (sum_list (map length b))}"
  proof
    fix p assume "p \<in> {(r, c). \<exists>x. cell_at b r c = Some x \<and> P x}"
    then obtain r c x where p: "p = (r, c)" and x: "cell_at b r c = Some x" by auto
    then have r: "0 \<le> r" "nat r < length b" and c: "0 \<le> c" "nat c < length (b ! nat r)"
      by (auto simp: cell_at_Some_iff)
    have "length (b ! nat r) \<in> set (map length b)" using r by simp
    then have "length (b ! nat r) \<le> sum_list (map length b)" by (simp add: member_le_sum_list)
    then show "p \<in> {0..<int (length b)} \<times> {0..<int (sum_list (map length b))}"
      using p r c by auto
  qed
qed simp

lemma checkWinCondition_wf:
  assumes "wf_game g"
  shows "checkWinCondition g =
           (None, if card (unopened_safe (board g)) = 0 then g\<lparr>status := Win\<rparr> else g)"
proof -
  have "fold (unopened_step g) (coords (rows g) (cols g)) (Inr 0) =
          Inr (0 + length (filter (\<lambda>p. \<exists>x. cell_at (board g) (fst p) (snd p) = Some x \<and>
                 (\<not> hasMine x \<and> state x \<noteq> Open)) (coords (rows g) (cols g))))"
  proof (rule fold_count_step)
    show "\<forall>p\<in>set (coords (rows g) (cols g)). \<exists>x. cell_at (board g) (fst p) (snd p) = Some x"
      using wf_game_cell_at_coords [OF assms] by auto
  qed (simp add: unopened_step_def)
  then show ?thesis
    by (simp add: checkWinCondition_def unopened_safe_def count_coords [OF assms])
qed

lemma unopened_safe_empty:
  "card (unopened_safe b) = 0 \<longleftrightarrow>
     (\<forall>r c x. cell_at b r c = Some x \<and> \<not> hasMine x \<longrightarrow> state x = Open)"
proof -
  have "finite (unopened_safe b)"
    unfolding unopened_safe_def by (rule finite_positions)
  then have "card (unopened_safe b) = 0 \<longleftrightarrow> unopened_safe b = {}" by simp
  then show ?thesis by (auto simp: unopened_safe_def)
qed

lemma fold_reveal_step:
  assumes "wf_game g" "\<forall>p\<in>set ps. inBounds g (fst p) (snd p)"
  shows "\<exists>g'. fold reveal_step ps (None, g) = (None, g') \<and> wf_game g' \<and>
           rows g' = rows g \<and> cols g' = cols g \<and> mines g' = mines g \<and> status g' = status g \<and>
           (\<forall>r c. cell_at (board g') r c =
              map_option (\<lambda>x. if (r, c) \<in> set ps \<and> hasMine x then x\<lparr>state := Open\<rparr> else x)
                (cell_at (board g) r c))"
  using assms
proof (induction ps arbitrary: g)
  case Nil
  then show ?case by (simp add: option.map_ident)
next
  case (Cons p ps)
  then obtain x where x: "cell_at (board g) (fst p) (snd p) = Some x"
    using wf_game_cell_at_None [of g "fst p" "snd p"] by auto
  let ?g1 = "if hasMine x
             then g\<lparr>board := update_cell (board g) (fst p) (snd p) (\<lambda>y. y\<lparr>state := Open\<rparr>)\<rparr> else g"
  have step: "reveal_step p (None, g) = (None, ?g1)"
    using x by (simp add: reveal_step_def)
  have wf1: "wf_game ?g1" using Cons.prems(1) by (simp add: wf_game_update_cell)
  have dims: "rows ?g1 = rows g" "cols ?g1 = cols g" "mines ?g1 = mines g" "status ?g1 = status g"
    by simp_all
  have cells1: "cell_at (board ?g1) r c =
      map_option (\<lambda>y. if (r, c) = p \<and> hasMine y then y\<lparr>state := Open\<rparr> else y) (cell_at (board g) r c)"
    for r c
  proof (cases "(r, c) = p")
    case True
    then show ?thesis using x by (auto simp: cell_at_update_cell [OF x])
  next
    case False
    then have "\<not> (r = fst p \<and> c = snd p)" by auto
    then show ?thesis using False
      by (auto simp: cell_at_update_cell [OF x] option.map_ident)
  qed
  have "\<forall>q\<in>set ps. inBounds ?g1 (fst q) (snd q)"
    using Cons.prems(2) by (simp add: inBounds_def)
  from Cons.IH [OF wf1 this] obtain g' where
    g': "fold reveal_step ps (None, ?g1) = (None, g')" "wf_game g'"
      "rows g' = rows ?g1" "cols g' = cols ?g1" "mines g' = mines ?g1" "status g' = status ?g1"
    and cells': "\<And>r c. cell_at (board g') r c =
              map_option (\<lambda>x. if (r, c) \<in> set ps \<and> hasMine x then x\<lparr>state := Open\<rparr> else x)
                (cell_at (board ?g1) r c)"
    by blast
  have "cell_at (board g') r c =
          map_option (\<lambda>x. if (r, c) \<in> set (p # ps) \<and> hasMine x then x\<lparr>state := Open\<rparr> else x)
            (cell_at (board g) r c)" for r c
    unfolding cells' cells1 by (cases "cell_at (board g) r c") auto
  then show ?case using step g' dims by simp
qed

lemma revealAllMines_wf:
  assumes "wf_game g"
  shows "\<exists>g'. revealAllMines g = (None, g') \<and> wf_game g' \<and>
           rows g' = rows g \<and> cols g' = cols g \<and> mines g' = mines g \<and> status g' = status g \<and>
           (\<forall>r c. cell_at (board g') r c =
              map_option (\<lambda>x. if hasMine x then x\<lparr>state := Open\<rparr> else x) (cell_at (board g) r c))"
proof -
  have "\<forall>p\<in>set (coords (rows g) (cols g)). inBounds g (fst p) (snd p)"
    by (auto simp: set_coords inBounds_def)
  from fold_reveal_step [OF assms this] obtain g' where
    g': "fold reveal_step (coords (rows g) (cols g)) (None, g) = (None, g')" "wf_game g'"
      "rows g' = rows g" "cols g' = cols g" "mines g' = mines g" "status g' = status g"
    and cells: "\<And>r c. cell_at (board g') r c =
              map_option (\<lambda>x. if (r, c) \<in> set (coords (rows g) (cols g)) \<and> hasMine x
                               then x\<lparr>state := Open\<rparr> else x) (cell_at (board g) r c)"
    by blast
  have "cell_at (board g') r c =
          map_option (\<lambda>x. if hasMine x then x\<lparr>state := Open\<rparr> else x) (cell_at (board g) r c)" for r c
  proof (cases "cell_at (board g) r c")
    case None
    then show ?thesis by (simp add: cells)
  next
    case (Some x)
    then have "(r, c) \<in> set (coords (rows g) (cols g))"
      using wf_game_cell_at_coords [OF assms, of r c] by simp
    then show ?thesis using Some by (simp add: cells)
  qed
  then show ?thesis using g' by (simp add: revealAllMines_def)
qed

subsection \<open>Status and guards\<close>

lemma floodOpen_returns: "\<exists>res. floodOpen g r c = Some res"
  unfolding floodOpen_def by (rule floodOpen_loop_returns)

lemma floodOpen_status: "floodOpen g r c = Some res \<Longrightarrow> status (snd res) = status g"
  using floodOpen_loop_frame [of g "[(r, c)]"] by (auto simp: floodOpen_def flood_frame_def)

lemma openCell_returns: "\<exists>res. openCell g r c = Some res"
proof -
  obtain res where "floodOpen g r c = Some res" using floodOpen_returns by blast
  then show ?thesis
    by (cases res; cases "fst res") (auto simp: openCell_def split: option.splits)
qed

lemma openCell_terminal: "status g \<noteq> InProgress \<Longrightarrow> openCell g r c = Some (None, g)"
  by (simp add: openCell_def)

lemma toggleFlag_terminal: "status g \<noteq> InProgress \<Longrightarrow> toggleFlag g r c = (None, g)"
  by (simp add: toggleFlag_def)

lemma toggleFlag_status: "status (snd (toggleFlag g r c)) = status g"
  by (simp add: toggleFlag_def split: option.splits)

lemma createGame_status: "createGame fmul rnd nr nc nm = Some (Inr g) \<Longrightarrow> status g = InProgress"
  by (auto simp: createGame_def split: option.splits sum.splits)

lemma cell_at_flaggedSample:
  "cell_at (board flaggedSample) 0 0 = Some \<lparr>hasMine = False, neighborMines = 1, state = Flagged\<rparr>"
  "cell_at (board flaggedSample) 0 1 = Some \<lparr>hasMine = True, neighborMines = 0, state = Closed\<rparr>"
  "cell_at (board flaggedSample) 1 0 = Some \<lparr>hasMine = False, neighborMines = 1, state = Open\<rparr>"
  "cell_at (board flaggedSample) 1 2 = Some \<lparr>hasMine = True, neighborMines = 0, state = Flagged\<rparr>"
  "cell_at (board flaggedSample) 2 0 = Some \<lparr>hasMine = False, neighborMines = 0, state = Closed\<rparr>"
  by (simp_all add: flaggedSample_def cell_at_def js_index_def)

subsection \<open>What the flood-reveal opens\<close>

lemma zero_cell_closed_safe: "zero_cell b p \<Longrightarrow> closed_safe b p"
  by (auto simp: zero_cell_def closed_safe_def split: option.splits)

lemma zero_region_zero_cell: "z \<in> zero_region b seed \<Longrightarrow> zero_cell b z"
  by (induction rule: zero_region.induct) auto

lemma zero_region_subset: "zero_region b seed \<subseteq> flood_region b seed"
proof
  fix z assume z: "z \<in> zero_region b seed"
  then have "closed_safe b z" by (intro zero_cell_closed_safe zero_region_zero_cell)
  then show "z \<in> flood_region b seed" using z by (simp add: flood_region_def)
qed

lemma flood_region_zero_cell:
  assumes "p \<in> flood_region b seed" "zero_cell b p"
  shows "p \<in> zero_region b seed"
proof -
  from assms(1) consider "p \<in> zero_region b seed"
    | z where "z \<in> zero_region b seed" "p \<in> set (neighbors8 (fst z) (snd z))"
    unfolding flood_region_def by blast
  then show ?thesis
  proof cases
    case 1
    then show ?thesis .
  next
    case 2
    then show ?thesis using assms(2) by (rule zero_region.step)
  qed
qed

lemma flood_region_border:
  "z \<in> zero_region b seed \<Longrightarrow> q \<in> set (neighbors8 (fst z) (snd z)) \<Longrightarrow> closed_safe b q
     \<Longrightarrow> q \<in> flood_region b seed"
  by (auto simp: flood_region_def)

lemma flood_frame_closed:
  assumes "flood_frame g0 g" "cell_at (board g) r c = Some x" "state x = Closed"
  shows "cell_at (board g0) r c = Some x"
proof -
  from assms(1) have "cell_at (board g) r c = cell_at (board g0) r c \<or>
      (\<exists>y. cell_at (board g0) r c = Some y \<and> state y = Closed \<and> \<not> hasMine y \<and>
           cell_at (board g) r c = Some (y\<lparr>state := Open\<rparr>))"
    unfolding flood_frame_def by blast
  then show ?thesis using assms(2,3) by auto
qed

lemma flood_frame_closed_safe:
  assumes "flood_frame g0 g" "closed_safe (board g) p"
  shows "closed_safe (board g0) p"
proof -
  from assms(2) obtain x where x: "cell_at (board g) (fst p) (snd p) = Some x"
    "state x = Closed" "\<not> hasMine x"
    by (auto simp: closed_safe_def split: option.splits)
  from flood_frame_closed [OF assms(1) x(1,2)] x show ?thesis by (simp add: closed_safe_def)
qed

lemma closed_safe_open:
  assumes "cell_at b r c = Some x"
  shows "closed_safe (update_cell b r c (\<lambda>y. y\<lparr>state := Open\<rparr>)) q \<longleftrightarrow>
           closed_safe b q \<and> q \<noteq> (r, c)"
proof (cases "q = (r, c)")
  case True
  then show ?thesis by (simp add: closed_safe_def cell_at_update_cell [OF assms])
next
  case False
  then have "\<not> (fst q = r \<and> snd q = c)" by auto
  then have "cell_at (update_cell b r c (\<lambda>y. y\<lparr>state := Open\<rparr>)) (fst q) (snd q) =
             cell_at b (fst q) (snd q)"
    unfolding cell_at_update_cell [OF assms] by auto
  then show ?thesis using False by (simp add: closed_safe_def)
qed

lemma opened_since_open:
  assumes "flood_frame g0 g" "cell_at (board g) r c = Some x" "state x = Closed" "\<not> hasMine x"
  shows "opened_since g0 (g\<lparr>board := update_cell (board g) r c (\<lambda>y. y\<lparr>state := Open\<rparr>)\<rparr>) =
           insert (r, c) (opened_since g0 g)"
proof -
  have "closed_safe (board g) (r, c)" using assms(2-4) by (simp add: closed_safe_def)
  then have "closed_safe (board g0) (r, c)" by (rule flood_frame_closed_safe [OF assms(1)])
  then show ?thesis
    by (auto simp: opened_since_def closed_safe_open [OF assms(2)])
qed

lemma flood_inv_init:
  assumes "zero_cell (board g0) seed"
  shows "flood_inv g0 seed g0 [seed]"
proof -
  have "seed \<in> flood_region (board g0) seed"
    using zero_region_subset zero_region.seed [OF assms] by blast
  moreover have "opened_since g0 g0 = {}" by (simp add: opened_since_def)
  ultimately show ?thesis by (simp add: flood_inv_def flood_frame_refl)
qed

lemma flood_inv_stop:
  assumes "flood_inv g0 seed g []"
  shows "opened_since g0 g = flood_region (board g0) seed"
proof -
  let ?O = "opened_since g0 g"
  from assms have sub: "?O \<subseteq> flood_region (board g0) seed"
    and closure: "\<And>z q. z \<in> ?O \<Longrightarrow> zero_cell (board g0) z \<Longrightarrow>
            q \<in> set (neighbors8 (fst z) (snd z)) \<Longrightarrow> closed_safe (board g0) q \<Longrightarrow> q \<in> ?O"
    and seed: "seed \<in> ?O"
    by (auto simp: flood_inv_def)
  have zero: "z \<in> ?O" if "z \<in> zero_region (board g0) seed" for z
    using that
  proof (induction rule: zero_region.induct)
    case seed
    then show ?case using \<open>seed \<in> ?O\<close> by simp
  next
    case (step z q)
    show ?case
      using step.IH zero_region_zero_cell [OF step.hyps(1)] step.hyps(2)
        zero_cell_closed_safe [OF step.hyps(3)]
      by (rule closure)
  qed
  have "p \<in> ?O" if "p \<in> flood_region (board g0) seed" for p
  proof -
    from that have cs: "closed_safe (board g0) p" by (simp add: flood_region_def)
    from that consider "p \<in> zero_region (board g0) seed"
      | z where "z \<in> zero_region (board g0) seed" "p \<in> set (neighbors8 (fst z) (snd z))"
      unfolding flood_region_def by blast
    then show ?thesis
    proof cases
      case 1
      then show ?thesis by (rule zero)
    next
      case 2
      show ?thesis
        using zero [OF 2(1)] zero_region_zero_cell [OF 2(1)] 2(2) cs by (rule closure)
    qed
  qed
  then show ?thesis using sub by blast
qed

lemma flood_inv_cell:
  assumes "flood_inv g0 seed g (p # rest)"
  shows "closed_safe (board g0) p" "cell_at (board g) (fst p) (snd p) \<noteq> None"
proof -
  from assms have "p \<in> flood_region (board g0) seed" and fr: "flood_frame g0 g"
    by (simp_all add: flood_inv_def)
  then show cs: "closed_safe (board g0) p" by (simp add: flood_region_def)
  then have "cell_at (board g0) (fst p) (snd p) \<noteq> None"
    by (auto simp: closed_safe_def split: option.splits)
  then show "cell_at (board g) (fst p) (snd p) \<noteq> None"
    using flood_frame_cell_at_None [OF fr] by simp
qed

lemma flood_inv_skip:
  assumes inv: "flood_inv g0 seed g (p # rest)"
    and x: "cell_at (board g) (fst p) (snd p) = Some x" "state x \<noteq> Closed \<or> hasMine x"
  shows "flood_inv g0 seed g rest"
proof -
  have "\<not> closed_safe (board g) p" using x by (auto simp: closed_safe_def)
  then have p: "p \<in> opened_since g0 g"
    using flood_inv_cell(1) [OF inv] by (simp add: opened_since_def)
  show ?thesis using inv p unfolding flood_inv_def by (simp, blast)
qed

lemma flood_inv_leaf:
  assumes inv: "flood_inv g0 seed g (p # rest)"
    and x: "cell_at (board g) (fst p) (snd p) = Some x" "state x = Closed" "\<not> hasMine x"
      "neighborMines x \<noteq> 0"
  shows "flood_inv g0 seed
           (g\<lparr>board := update_cell (board g) (fst p) (snd p) (\<lambda>y. y\<lparr>state := Open\<rparr>)\<rparr>) rest"
proof -
  let ?g' = "g\<lparr>board := update_cell (board g) (fst p) (snd p) (\<lambda>y. y\<lparr>state := Open\<rparr>)\<rparr>"
  from inv have fr: "flood_frame g0 g" by (simp add: flood_inv_def)
  have fr': "flood_frame g0 ?g'" using fr x(1-3) by (rule flood_frame_open)
  have O': "opened_since g0 ?g' = insert p (opened_since g0 g)"
    using opened_since_open [OF fr x(1-3)] by simp
  have "cell_at (board g0) (fst p) (snd p) = Some x" using fr x(1,2) by (rule flood_frame_closed)
  then have nz: "\<not> zero_cell (board g0) p" using x(4) by (simp add: zero_cell_def)
  show ?thesis using inv fr' nz unfolding flood_inv_def O' by (simp, blast)
qed

lemma flood_inv_push:
  assumes wf: "wf_game g0" and inv: "flood_inv g0 seed g (p # rest)"
    and x: "cell_at (board g) (fst p) (snd p) = Some x" "state x = Closed" "\<not> hasMine x"
      "neighborMines x = 0"
  shows "\<exists>st. push_neighbors (g\<lparr>board := update_cell (board g) (fst p) (snd p) (\<lambda>y. y\<lparr>state := Open\<rparr>)\<rparr>)
                 (fst p) (snd p) rest = Inr st \<and>
              flood_inv g0 seed
                (g\<lparr>board := update_cell (board g) (fst p) (snd p) (\<lambda>y. y\<lparr>state := Open\<rparr>)\<rparr>) st"
proof -
  let ?g' = "g\<lparr>board := update_cell (board g) (fst p) (snd p) (\<lambda>y. y\<lparr>state := Open\<rparr>)\<rparr>"
  let ?R = "flood_region (board g0) seed"
  from inv have fr: "flood_frame g0 g" and pR: "p \<in> ?R" by (simp_all add: flood_inv_def)
  have fr': "flood_frame g0 ?g'" using fr x(1-3) by (rule flood_frame_open)
  have wf': "wf_game ?g'" using fr' wf by (rule flood_frame_wf)
  have O': "opened_since g0 ?g' = insert p (opened_since g0 g)"
    using opened_since_open [OF fr x(1-3)] by simp
  have "cell_at (board g0) (fst p) (snd p) = Some x" using fr x(1,2) by (rule flood_frame_closed)
  then have "zero_cell (board g0) p" using x(2-4) by (simp add: zero_cell_def)
  with pR have pZ: "p \<in> zero_region (board g0) seed" by (rule flood_region_zero_cell)
  from push_neighbors_wf [OF wf', of "fst p" "snd p" rest] obtain st where
    st: "push_neighbors ?g' (fst p) (snd p) rest = Inr st"
      "set st = set rest \<union> {q \<in> set (neighbors8 (fst p) (snd p)). closed_safe (board ?g') q}"
    by blast
  have new: "q \<in> ?R" if "q \<in> set (neighbors8 (fst p) (snd p))" "closed_safe (board ?g') q" for q
    using pZ that(1) flood_frame_closed_safe [OF fr' that(2)] by (rule flood_region_border)
  have a: "set st \<subseteq> ?R" using inv new unfolding st(2) flood_inv_def by auto
  have b: "opened_since g0 ?g' \<subseteq> ?R" using inv pR unfolding O' flood_inv_def by auto
  have c: "q \<in> opened_since g0 ?g' \<or> q \<in> set st"
    if "z \<in> opened_since g0 ?g'" "zero_cell (board g0) z"
      "q \<in> set (neighbors8 (fst z) (snd z))" "closed_safe (board g0) q" for z q
  proof (cases "z = p")
    case True
    show ?thesis
    proof (cases "closed_safe (board ?g') q")
      case cs: True
      then show ?thesis using that(3) True unfolding st(2) by simp
    next
      case False
      then show ?thesis using that(4) by (simp add: opened_since_def)
    qed
  next
    case False
    then have "z \<in> opened_since g0 g" using that(1) unfolding O' by simp
    then have "q \<in> opened_since g0 g \<or> q \<in> set (p # rest)"
      using inv that(2-4) unfolding flood_inv_def by blast
    then show ?thesis unfolding O' st(2) by auto
  qed
  have d: "seed \<in> opened_since g0 ?g' \<or> seed \<in> set st"
    using inv unfolding O' st(2) flood_inv_def by auto
  have "flood_inv g0 seed ?g' st"
    unfolding flood_inv_def using fr' a b c d by blast
  then show ?thesis using st(1) by blast
qed

lemma floodOpen_loop_exact:
  assumes wf: "wf_game g0" and seed: "zero_cell (board g0) seed"
  shows "\<exists>g'. floodOpen_loop g0 [seed] = Some (None, g') \<and> flood_frame g0 g' \<and>
           opened_since g0 g' = flood_region (board g0) seed"
proof -
  have "\<exists>res. floodOpen_loop g0 [seed] = Some res \<and>
          (fst res = None \<and> flood_frame g0 (snd res) \<and>
           opened_since g0 (snd res) = flood_region (board g0) seed)"
  proof (rule floodOpen_loop_rule [where I = "flood_inv g0 seed"], goal_cases)
    case 1
    show ?case using seed by (rule flood_inv_init)
  next
    case (2 g)
    then show ?case using flood_inv_stop [OF 2] by (simp add: flood_inv_def)
  next
    case (3 g p rest)
    then show ?case using flood_inv_cell(2) [OF 3(1)] by simp
  next
    case (4 g p rest x)
    then show ?case by (rule flood_inv_skip)
  next
    case (5 g p rest x)
    then show ?case by (rule flood_inv_leaf)
  next
    case (6 g p rest x st)
    then show ?case using flood_inv_push [OF wf 6(1-5)] by auto
  next
    case (7 g p rest x e)
    then show ?case using flood_inv_push [OF wf 7(1-5)] by auto
  qed
  then show ?thesis by (metis prod.collapse)
qed

lemma openCell_flood:
  assumes wf: "wf_game g" and st: "status g = InProgress"
    and x: "cell_at (board g) r c = Some x" "state x = Closed" "\<not> hasMine x" "neighborMines x = 0"
  shows "\<exists>g'. openCell g r c = Some (None, g') \<and>
           (\<forall>r' c'. cell_at (board g') r' c' =
              map_option (\<lambda>y. if (r', c') \<in> flood_region (board g) (r, c)
                               then y\<lparr>state := Open\<rparr> else y) (cell_at (board g) r' c'))"
proof -
  let ?R = "flood_region (board g) (r, c)"
  have "zero_cell (board g) (r, c)" using x by (simp add: zero_cell_def)
  from floodOpen_loop_exact [OF wf this] obtain g1 where
    g1: "floodOpen_loop g [(r, c)] = Some (None, g1)" and fr: "flood_frame g g1"
    and O: "opened_since g g1 = ?R"
    by blast
  have wf1: "wf_game g1" using fr wf by (rule flood_frame_wf)
  let ?g' = "if card (unopened_safe (board g1)) = 0 then g1\<lparr>status := Win\<rparr> else g1"
  have res: "openCell g r c = Some (None, ?g')"
    using st x g1 by (simp add: openCell_def floodOpen_def checkWinCondition_wf [OF wf1])
  have "cell_at (board g1) r' c' =
          map_option (\<lambda>y. if (r', c') \<in> ?R then y\<lparr>state := Open\<rparr> else y) (cell_at (board g) r' c')"
    for r' c'
  proof -
    from fr consider (same) "cell_at (board g1) r' c' = cell_at (board g) r' c'"
      | (opened) y where "cell_at (board g) r' c' = Some y" "state y = Closed" "\<not> hasMine y"
          "cell_at (board g1) r' c' = Some (y\<lparr>state := Open\<rparr>)"
      unfolding flood_frame_def by blast
    then show ?thesis
    proof cases
      case same
      then have "(r', c') \<notin> opened_since g g1" by (simp add: opened_since_def closed_safe_def)
      then show ?thesis using same O by (simp add: option.map_ident)
    next
      case opened
      then have "(r', c') \<in> opened_since g g1" by (simp add: opened_since_def closed_safe_def)
      then show ?thesis using opened O by simp
    qed
  qed
  then have "\<forall>r' c'. cell_at (board ?g') r' c' =
          map_option (\<lambda>y. if (r', c') \<in> ?R then y\<lparr>state := Open\<rparr> else y) (cell_at (board g) r' c')"
    by simp
  then show ?thesis using res by blast
qed

lemma openCell_single:
  assumes wf: "wf_game g" and st: "status g = InProgress"
    and x: "cell_at (board g) r c = Some x" "state x = Closed" "\<not> hasMine x" "neighborMines x \<noteq> 0"
  shows "\<exists>g'. openCell g r c = Some (None, g') \<and>
           (\<forall>r' c'. cell_at (board g') r' c' =
              (if r' = r \<and> c' = c then Some (x\<lparr>state := Open\<rparr>) else cell_at (board g) r' c'))"
proof -
  let ?g1 = "g\<lparr>board := update_cell (board g) r c (\<lambda>y. y\<lparr>state := Open\<rparr>)\<rparr>"
  have wf1: "wf_game ?g1" using wf by (rule wf_game_update_cell)
  let ?g' = "if card (unopened_safe (board ?g1)) = 0 then ?g1\<lparr>status := Win\<rparr> else ?g1"
  have res: "openCell g r c = Some (None, ?g')"
    using st x by (simp add: openCell_def checkWinCondition_wf [OF wf1])
  have "\<forall>r' c'. cell_at (board ?g') r' c' =
          (if r' = r \<and> c' = c then Some (x\<lparr>state := Open\<rparr>) else cell_at (board g) r' c')"
    by (simp add: cell_at_update_cell [OF x(1)])
  then show ?thesis using res by blast
qed

lemma openCell_mine_cells:
  assumes wf: "wf_game g" and st: "status g = InProgress"
    and x: "cell_at (board g) r c = Some x" "state x = Closed" "hasMine x"
  shows "\<exists>g'. openCell g r c = Some (None, g') \<and>
           (\<forall>r' c'. cell_at (board g') r' c' =
              map_option (\<lambda>y. if hasMine y then y\<lparr>state := Open\<rparr> else y) (cell_at (board g) r' c'))"
proof -
  let ?g1 = "g\<lparr>board := update_cell (board g) r c (\<lambda>y. y\<lparr>state := Open\<rparr>), status := Lose\<rparr>"
  have "wf_game (g\<lparr>board := update_cell (board g) r c (\<lambda>y. y\<lparr>state := Open\<rparr>)\<rparr>)"
    using wf by (rule wf_game_update_cell)
  then have wf1: "wf_game ?g1" by (simp add: wf_game_def)
  have cells1: "cell_at (board ?g1) r' c' =
      (if r' = r \<and> c' = c then Some (x\<lparr>state := Open\<rparr>) else cell_at (board g) r' c')" for r' c'
    by (simp add: cell_at_update_cell [OF x(1)])
  from revealAllMines_wf [OF wf1] obtain g' where
    g': "revealAllMines ?g1 = (None, g')"
    and cells: "\<And>r' c'. cell_at (board g') r' c' =
        map_option (\<lambda>y. if hasMine y then y\<lparr>state := Open\<rparr> else y) (cell_at (board ?g1) r' c')"
    by blast
  have res: "openCell g r c = Some (None, g')"
    using st x g' by (simp add: openCell_def)
  have "cell_at (board g') r' c' =
          map_option (\<lambda>y. if hasMine y then y\<lparr>state := Open\<rparr> else y) (cell_at (board g) r' c')"
    for r' c'
    unfolding cells cells1 using x by auto
  then show ?thesis using res by blast
qed

lemma zero_region_path:
  assumes "z \<in> zero_region b seed"
  shows "\<exists>ps. zero_path b seed z ps \<and> (\<forall>p\<in>set ps. zero_cell b p)"
  using assms
proof (induction rule: zero_region.induct)
  case seed
  then have "zero_neighbor_cell b seed"
    by (auto simp: zero_cell_def zero_neighbor_cell_def split: option.splits)
  then have "zero_path b seed seed [seed]" by (simp add: zero_path_def)
  then show ?case using seed by (intro exI [of _ "[seed]"]) simp
next
  case (step z q)
  then obtain ps where ps: "zero_path b seed z ps" "\<forall>p\<in>set ps. zero_cell b p" by blast
  have zq: "zero_neighbor_cell b q" using step.hyps(3)
    by (auto simp: zero_cell_def zero_neighbor_cell_def split: option.splits)
  have link: "linked (ps @ [q])" if "ps \<noteq> []" "linked ps" "q \<in> set (neighbors8 (fst (last ps)) (snd (last ps)))"
    for ps :: "(int \<times> int) list"
    using that by (induction ps rule: linked.induct) auto
  have "zero_path b seed q (ps @ [q])"
    using ps(1) zq step.hyps(2) link [of ps] by (auto simp: zero_path_def)
  then show ?case using ps(2) step.hyps(3) by (intro exI [of _ "ps @ [q]"]) auto
qed

lemma cell_at_flaggedRow:
  "cell_at (board flaggedRow) 0 0 = Some \<lparr>hasMine = False, neighborMines = 0, state = Closed\<rparr>"
  "cell_at (board flaggedRow) 0 1 = Some \<lparr>hasMine = False, neighborMines = 0, state = Flagged\<rparr>"
  "cell_at (board flaggedRow) 0 2 = Some \<lparr>hasMine = False, neighborMines = 0, state = Closed\<rparr>"
  by (simp_all add: flaggedRow_def cell_at_def js_index_def)

lemma cell_at_sampleGame:
  "cell_at (board sampleGame) 2 0 = Some \<lparr>hasMine = False, neighborMines = 0, state = Closed\<rparr>"
  "cell_at (board sampleGame) 2 1 = Some \<lparr>hasMine = False, neighborMines = 2, state = Closed\<rparr>"
  "cell_at (board sampleGame) 1 1 = Some \<lparr>hasMine = True, neighborMines = 0, state = Closed\<rparr>"
  "cell_at (board sampleGame) 0 0 = Some \<lparr>hasMine = False, neighborMines = 1, state = Closed\<rparr>"
  by (simp_all add: sampleGame_def createSampleBoard_def cell_at_def js_index_def)

lemma neighbors8_mem:
  "(r', c') \<in> set (neighbors8 r c) \<longleftrightarrow>
     \<bar>r' - r\<bar> \<le> 1 \<and> \<bar>c' - c\<bar> \<le> 1 \<and> \<not> (r' = r \<and> c' = c)"
proof -
  have "(r', c') \<in> set (neighbors8 r c) \<longleftrightarrow> (r' - r, c' - c) \<in> set deltas"
    unfolding neighbors8_def by (force simp: image_iff)
  then show ?thesis by (simp add: in_set_deltas)
qed

lemma flaggedRow_first_step:
  assumes "q \<in> set (neighbors8 0 0)" "zero_neighbor_cell (board flaggedRow) q"
  shows "q = (0, 1)"
proof -
  obtain r c where q: "q = (r, c)" by (cases q)
  from assms(2) obtain y where "cell_at (board flaggedRow) r c = Some y"
    unfolding q by (auto simp: zero_neighbor_cell_def split: option.splits)
  then have "r = 0" "0 \<le> c" "c < 3"
    by (auto simp: cell_at_Some_iff flaggedRow_def)
  moreover have "\<bar>c\<bar> \<le> 1" "\<not> (r = 0 \<and> c = 0)"
    using assms(1) unfolding q by (simp_all add: neighbors8_mem)
  ultimately show ?thesis unfolding q by auto
qed

lemma flaggedRow_paths:
  assumes "zero_path (board flaggedRow) (0, 0) (0, 2) ps"
  shows "(0, 1) \<in> set ps"
proof (cases ps)
  case Nil
  then show ?thesis using assms by (simp add: zero_path_def)
next
  case (Cons p qs)
  then have p: "p = (0, 0)" using assms by (simp add: zero_path_def)
  show ?thesis
  proof (cases qs)
    case Nil
    then show ?thesis using assms Cons p by (simp add: zero_path_def)
  next
    case (Cons q rs)
    then have "q \<in> set (neighbors8 0 0)" "zero_neighbor_cell (board flaggedRow) q"
      using assms \<open>ps = p # qs\<close> p by (simp_all add: zero_path_def)
    then have "q = (0, 1)" by (rule flaggedRow_first_step)
    then show ?thesis using Cons \<open>ps = p # qs\<close> by simp
  qed
qed

subsection \<open>The double product\<close>

text \<open>
  \<open>ilog2\<close> is the exponent, and rounding goes to a nearest integer. A double from 0 up to
  \<open>1 - 1 / 2 ^ 53\<close> times a whole number \<open>n\<close> from 1 up to \<open>2 ^ 53\<close> is, once rounded, still
  below \<open>n\<close>.
\<close>

lemma bitlen_pos: "1 \<le> n \<Longrightarrow> 1 \<le> bitlen n"
  using compute_bitlen [of n] bitlen_nonneg [of "n div 2"] by simp

lemma bitlen_real_bounds:
  assumes "1 \<le> n"
  shows "(2::real) ^ nat (bitlen n - 1) \<le> of_int n" and "real_of_int n + 1 \<le> 2 ^ nat (bitlen n)"
proof -
  from assms have b: "2 ^ nat (bitlen n - 1) \<le> n" "n + 1 \<le> 2 ^ nat (bitlen n)"
    using bitlen_bounds [of n] by auto
  have "real_of_int (2 ^ nat (bitlen n - 1)) \<le> of_int n" using b(1) by (simp only: of_int_le_iff)
  then show "(2::real) ^ nat (bitlen n - 1) \<le> of_int n" by simp
  have "real_of_int (n + 1) \<le> of_int (2 ^ nat (bitlen n))" using b(2) by (simp only: of_int_le_iff)
  then show "real_of_int n + 1 \<le> 2 ^ nat (bitlen n)" by simp
qed

lemma ilog2_bounds:
  assumes "0 < y"
  shows "pow2 (ilog2 y) \<le> y \<and> y < pow2 (ilog2 y + 1)"
proof (cases "1 \<le> y")
  case True
  define n where "n = \<lfloor>y\<rfloor>"
  have n: "1 \<le> n" using True by (simp add: n_def le_floor_iff)
  then have bl: "1 \<le> bitlen n" by (rule bitlen_pos)
  note b = bitlen_real_bounds [OF n]
  have "of_int n \<le> y" by (simp add: n_def)
  with b(1) have lo: "2 ^ nat (bitlen n - 1) \<le> y" by linarith
  have "y < of_int n + 1" unfolding n_def by linarith
  with b(2) have hi: "y < 2 ^ nat (bitlen n)" by linarith
  show ?thesis using True lo hi bl by (simp add: ilog2_def pow2_def n_def [symmetric])
next
  case False
  define m where "m = \<lceil>1 / y\<rceil> - 1"
  have y1: "1 < 1 / y" using False assms by simp
  then have m: "1 \<le> m" unfolding m_def by linarith
  then have bl: "1 \<le> bitlen m" by (rule bitlen_pos)
  note b = bitlen_real_bounds [OF m]
  have m1: "of_int m < 1 / y" unfolding m_def by linarith
  have m2: "1 / y \<le> of_int m + 1" unfolding m_def by simp
  from b(1) m1 have "2 ^ nat (bitlen m - 1) < 1 / y" by linarith
  then have hi: "y < 1 / 2 ^ nat (bitlen m - 1)" using assms by (simp add: field_simps)
  from b(2) m2 have "1 / y \<le> 2 ^ nat (bitlen m)" by linarith
  then have lo: "1 / 2 ^ nat (bitlen m) \<le> y" using assms by (simp add: field_simps)
  have e: "ilog2 y = - bitlen m" using False by (simp add: ilog2_def m_def)
  show ?thesis
  proof (cases "bitlen m = 1")
    case True
    then show ?thesis using lo hi unfolding e pow2_def by simp
  next
    case False
    then have "\<not> 0 \<le> - bitlen m + 1" "\<not> 0 \<le> - bitlen m" using bl by simp_all
    moreover have "nat (- (- bitlen m + 1)) = nat (bitlen m - 1)" by simp
    ultimately show ?thesis using lo hi unfolding e pow2_def by (simp only: if_False) simp
  qed
qed

lemma pow2_powr: "pow2 e = 2 powr (of_int e)"
proof (cases "0 \<le> e")
  case True
  then have "(2::real) powr of_int e = 2 powr real (nat e)" by simp
  also have "\<dots> = 2 ^ nat e" by (rule powr_realpow) simp
  finally show ?thesis using True by (simp add: pow2_def)
next
  case False
  then have "(2::real) powr of_int e = 2 powr - real (nat (- e))" by simp
  also have "\<dots> = 1 / 2 powr real (nat (- e))" by (simp add: powr_minus divide_inverse)
  also have "(2::real) powr real (nat (- e)) = 2 ^ nat (- e)" by (rule powr_realpow) simp
  finally show ?thesis using False by (simp add: pow2_def)
qed

lemma pow2_pos: "0 < pow2 e"
  by (simp add: pow2_powr)

lemma pow2_add: "pow2 (a + b) = pow2 a * pow2 b"
  by (simp add: pow2_powr powr_add)

lemma pow2_mono: "a \<le> b \<Longrightarrow> pow2 a \<le> pow2 b"
  by (simp add: pow2_powr)

lemma pow2_less_iff: "pow2 a < pow2 b \<longleftrightarrow> a < b"
  by (simp add: pow2_powr)

lemma round_half_even_nearest: "\<bar>of_int (round_half_even z) - z\<bar> \<le> 1 / 2"
  unfolding round_half_even_def Let_def by (simp; linarith)

lemma round_half_even_nonneg: "0 \<le> z \<Longrightarrow> 0 \<le> round_half_even z"
  unfolding round_half_even_def Let_def by simp

lemma round_half_even_le: "z \<le> of_int N \<Longrightarrow> round_half_even z \<le> N"
  using round_half_even_nearest [of z] by linarith

lemma round_half_even_less: "z < of_int N - 1 / 2 \<Longrightarrow> round_half_even z \<le> N - 1"
  using round_half_even_nearest [of z] by linarith

lemma round_double_pos:
  assumes "0 < x"
  shows "round_double x =
    pow2 (max (- 1022) (ilog2 x) - 52) *
      of_int (round_half_even (x / pow2 (max (- 1022) (ilog2 x) - 52)))"
  using assms by (simp add: round_double_def Let_def)

lemma round_double_below:
  assumes x: "0 < x" and n: "1 \<le> n" "n \<le> 2 ^ 53"
    and le: "x \<le> of_int n * (1 - 1 / 2 ^ 53)"
  shows "0 \<le> round_double x \<and> round_double x < of_int n"
proof -
  define e where "e = max (- 1022) (ilog2 x)"
  define q where "q = pow2 (e - 52)"
  define k where "k = round_half_even (x / q)"
  have q: "0 < q" by (simp add: q_def pow2_pos)
  have r: "round_double x = q * of_int k"
    using round_double_pos [OF x] by (simp add: e_def q_def k_def)
  have "0 \<le> k" unfolding k_def using x q by (intro round_half_even_nonneg) simp
  then have nonneg: "0 \<le> round_double x" using q by (simp add: r)
  have p53: "pow2 53 = 2 ^ 53" by (simp add: pow2_def)
  have p52: "pow2 52 = 2 ^ 52" by (simp add: pow2_def)
  have "e + 1 = (e - 52) + 53" by arith
  then have "pow2 (e + 1) = pow2 ((e - 52) + 53)" by (rule arg_cong)
  also have "\<dots> = pow2 (e - 52) * pow2 53" by (rule pow2_add)
  finally have qe: "q * 2 ^ 53 = pow2 (e + 1)" by (simp only: q_def p53)
  have "e = (e - 52) + 52" by arith
  then have "pow2 e = pow2 ((e - 52) + 52)" by (rule arg_cong)
  also have "\<dots> = pow2 (e - 52) * pow2 52" by (rule pow2_add)
  finally have qe': "q * 2 ^ 52 = pow2 e" by (simp only: q_def p52)
  have "x < pow2 (ilog2 x + 1)" using ilog2_bounds [OF x] by simp
  also have "\<dots> \<le> pow2 (e + 1)" by (rule pow2_mono) (simp add: e_def)
  finally have xhi: "x < pow2 (e + 1)" .
  have nx: "x \<le> of_int n - of_int n / 2 ^ 53" using le by (simp add: algebra_simps)
  have npos: "(0::real) < of_int n" using n by simp
  consider "pow2 (e + 1) < of_int n" | "pow2 (e + 1) = of_int n" | "of_int n < pow2 (e + 1)"
    by linarith
  then have "q * of_int k < of_int n"
  proof cases
    case 1
    have "x / q \<le> of_int (2 ^ 53)" using xhi qe q by (simp add: field_simps)
    then have "k \<le> 2 ^ 53" unfolding k_def by (rule round_half_even_le)
    then have "real_of_int k \<le> of_int (2 ^ 53)" by (simp only: of_int_le_iff)
    then have "q * of_int k \<le> q * 2 ^ 53" using q by simp
    then show ?thesis using 1 qe by simp
  next
    case 2
    have "of_int n / 2 ^ 53 = q" using 2 qe by (simp add: field_simps)
    then have "x \<le> q * 2 ^ 53 - q" using nx 2 qe by simp
    then have "x / q \<le> of_int (2 ^ 53) - 1" using q by (simp add: field_simps)
    then have "x / q < of_int (2 ^ 53) - 1 / 2" by linarith
    then have "k \<le> 2 ^ 53 - 1" unfolding k_def by (rule round_half_even_less)
    then have "real_of_int k \<le> of_int (2 ^ 53 - 1)" by (simp only: of_int_le_iff)
    then have "q * of_int k \<le> q * (2 ^ 53 - 1)" using q by simp
    also have "\<dots> < q * 2 ^ 53" using q by simp
    finally show ?thesis using 2 qe by simp
  next
    case 3
    have "pow2 0 \<le> of_int n" using n by (simp add: pow2_def)
    then have "pow2 0 < pow2 (e + 1)" using 3 by simp
    then have e0: "0 \<le> e" by (simp add: pow2_less_iff)
    then have ee: "e = ilog2 x" by (auto simp: e_def max_def split: if_splits)
    then have xlo: "pow2 e \<le> x" using ilog2_bounds [OF x] by simp
    have "0 < real_of_int n / 2 ^ 53" using npos by simp
    with nx have "x < of_int n" by linarith
    moreover have "real_of_int n \<le> of_int (2 ^ 53)" using n(2) by (simp only: of_int_le_iff)
    ultimately have "pow2 e < pow2 53" using xlo by (simp add: p53)
    then have e52: "e \<le> 52" by (simp add: pow2_less_iff)
    define N where "N = n * 2 ^ nat (52 - e)"
    have "0 = (e - 52) + (52 - e)" by arith
    then have "pow2 0 = pow2 ((e - 52) + (52 - e))" by (rule arg_cong)
    also have "\<dots> = pow2 (e - 52) * pow2 (52 - e)" by (rule pow2_add)
    also have "pow2 (52 - e) = 2 ^ nat (52 - e)" using e52 by (simp add: pow2_def)
    finally have qinv: "q * 2 ^ nat (52 - e) = 1" by (simp add: q_def pow2_def)
    have qN: "q * of_int N = of_int n"
      using qinv by (simp add: N_def algebra_simps)
    have "pow2 e < of_int n" using xlo \<open>x < of_int n\<close> by linarith
    then have "q / 2 < of_int n / 2 ^ 53" using qe' by (simp add: field_simps)
    then have "x < q * of_int N - q / 2" using nx qN by simp
    then have "x / q < of_int N - 1 / 2" using q by (simp add: field_simps)
    then have "k \<le> N - 1" unfolding k_def by (rule round_half_even_less)
    then have "real_of_int k \<le> of_int (N - 1)" by (simp only: of_int_le_iff)
    then have "q * of_int k \<le> q * of_int (N - 1)" using q by simp
    also have "\<dots> < q * of_int N" using q by simp
    finally show ?thesis using qN by simp
  qed
  then show ?thesis using nonneg by (simp add: r)
qed

lemma double_product_on_board:
  assumes u: "0 \<le> u" "u \<le> 1 - 1 / 2 ^ 53" and n: "1 \<le> n" "n \<le> 2 ^ 53"
  shows "0 \<le> \<lfloor>double_product u (of_int n)\<rfloor> \<and> \<lfloor>double_product u (of_int n)\<rfloor> < n"
proof (cases "u = 0")
  case True
  then show ?thesis using n by (simp add: double_product_def round_double_def)
next
  case False
  then have "0 < u * of_int n" using u n by simp
  moreover have "u * of_int n \<le> of_int n * (1 - 1 / 2 ^ 53)" using u n by (simp add: mult.commute)
  ultimately have "0 \<le> round_double (u * of_int n) \<and> round_double (u * of_int n) < of_int n"
    using n by (intro round_double_below)
  then show ?thesis by (simp add: double_product_def floor_less_iff)
qed

lemma double_product_zero: "double_product 0 x = 0"
  by (simp add: double_product_def round_double_def)

lemma double_product_half_two: "double_product (1 / 2) 2 = 1"
  by code_simp

text \<open>The double product is not the product of reals: the double nearest to 0.7, times 10.\<close>

lemma double_product_rounds:
  "\<lfloor>double_product (6305039478318694 / 2 ^ 53) 10\<rfloor> = 7 \<and>
   \<lfloor>(6305039478318694 / 2 ^ 53) * (10::real)\<rfloor> = 6"
  by code_simp

subsection \<open>The board generator\<close>

lemma wf_game_wf_board: "wf_game g \<longleftrightarrow> wf_board (rows g) (cols g) (board g)"
  by (simp add: wf_game_def wf_board_def)

lemma wf_board_cell_at_None:
  "wf_board nr nc b \<Longrightarrow> cell_at b r c = None \<longleftrightarrow> \<not> (0 \<le> r \<and> r < nr \<and> 0 \<le> c \<and> c < nc)"
  by (auto simp: wf_board_def cell_at_None_iff list_all_length)

lemma wf_board_update_cell:
  assumes "wf_board nr nc b"
  shows "wf_board nr nc (update_cell b r c f)"
proof -
  have "list_all (\<lambda>n. int n = nc) (map length (update_cell b r c f))"
    using assms unfolding map_length_update_cell by (simp add: wf_board_def list_all_iff)
  then show ?thesis using assms
    by (simp add: wf_board_def length_update_cell list_all_iff)
qed

lemma wf_board_replicate:
  "0 \<le> nr \<Longrightarrow> 0 \<le> nc \<Longrightarrow> wf_board nr nc (replicate (nat nr) (replicate (nat nc) x))"
  by (simp add: wf_board_def list_all_iff)

lemma cell_at_replicate:
  "cell_at (replicate n (replicate m x)) r c = Some y \<Longrightarrow> y = x"
  by (auto simp: cell_at_Some_iff)

lemma drawn_Suc: "drawn fmul rnd nr nc (Suc i) = insert (draw fmul rnd nr nc i) (drawn fmul rnd nr nc i)"
  by (simp add: drawn_def lessThan_Suc)

lemma finite_drawn: "finite (drawn fmul rnd nr nc n)"
  by (simp add: drawn_def)

lemma drawn_mono: "i \<le> n \<Longrightarrow> drawn fmul rnd nr nc i \<subseteq> drawn fmul rnd nr nc n"
  by (auto simp: drawn_def)

lemma mine_positions_place:
  assumes "cell_at b r c = Some x"
  shows "mine_positions (update_cell b r c (\<lambda>y. y\<lparr>hasMine := True\<rparr>)) = insert (r, c) (mine_positions b)"
  by (auto simp: mine_positions_def cell_at_update_cell [OF assms] split: if_splits)

lemma fresh_place:
  assumes "cell_at b r c = Some x" "fresh b"
  shows "fresh (update_cell b r c (\<lambda>y. y\<lparr>hasMine := True\<rparr>))"
  using assms unfolding fresh_def by (auto simp: cell_at_update_cell [OF assms(1)] split: if_splits)

lemma place_mines_returns:
  assumes inb: "drawn fmul rnd nr nc n \<subseteq> on_board nr nc"
    and fair: "nat m \<le> card (drawn fmul rnd nr nc n)"
    and inv: "wf_board nr nc b" "mine_positions b = drawn fmul rnd nr nc i"
      "placed = int (card (drawn fmul rnd nr nc i))" "placed \<le> m" "fresh b"
  shows "\<exists>b' j. place_mines fmul rnd nr nc m b placed (2 * i) = Some (Inr b') \<and> wf_board nr nc b' \<and>
           mine_positions b' = drawn fmul rnd nr nc j \<and> int (card (drawn fmul rnd nr nc j)) = m \<and> fresh b'"
  using inv
proof (induction "n - i" arbitrary: b placed i rule: less_induct)
  case less
  show ?case
  proof (cases "placed < m")
    case False
    then have "placed = m" using less.prems(4) by simp
    moreover have "place_mines fmul rnd nr nc m b placed (2 * i) = Some (Inr b)"
      using False by (subst place_mines.simps) simp
    ultimately show ?thesis using less.prems by blast
  next
    case True
    have "i < n"
    proof (rule ccontr)
      assume "\<not> i < n"
      then have "drawn fmul rnd nr nc n \<subseteq> drawn fmul rnd nr nc i" by (simp add: drawn_mono)
      then have "card (drawn fmul rnd nr nc n) \<le> card (drawn fmul rnd nr nc i)"
        by (rule card_mono [OF finite_drawn])
      then show False using fair True less.prems(3) by simp
    qed
    obtain r c where rc: "draw fmul rnd nr nc i = (r, c)" by (cases "draw fmul rnd nr nc i")
    then have r: "r = \<lfloor>fmul (rnd (2 * i)) (of_int nr)\<rfloor>"
      and c: "c = \<lfloor>fmul (rnd (2 * i + 1)) (of_int nc)\<rfloor>"
      by (simp_all add: draw_def)
    have "draw fmul rnd nr nc i \<in> drawn fmul rnd nr nc n"
      using \<open>i < n\<close> by (simp add: drawn_def)
    then have "(r, c) \<in> on_board nr nc" using inb rc by auto
    then have "0 \<le> r \<and> r < nr" "0 \<le> c \<and> c < nc" by (simp_all add: on_board_def)
    then obtain x where x: "cell_at b r c = Some x"
      using wf_board_cell_at_None [OF less.prems(1), of r c] by auto
    show ?thesis
    proof (cases "hasMine x")
      case mine: True
      then have "(r, c) \<in> drawn fmul rnd nr nc i"
        using x less.prems(2) by (auto simp: mine_positions_def)
      then have same: "drawn fmul rnd nr nc (Suc i) = drawn fmul rnd nr nc i"
        unfolding drawn_Suc rc by auto
      have "\<exists>b' j. place_mines fmul rnd nr nc m b placed (2 * Suc i) = Some (Inr b') \<and> wf_board nr nc b' \<and>
           mine_positions b' = drawn fmul rnd nr nc j \<and> int (card (drawn fmul rnd nr nc j)) = m \<and> fresh b'"
        using \<open>i < n\<close> less.prems by (intro less.hyps) (simp_all add: same)
      moreover have "place_mines fmul rnd nr nc m b placed (2 * i) =
                     place_mines fmul rnd nr nc m b placed (2 * Suc i)"
        using True x mine r c by (subst place_mines.simps) (simp add: Let_def)
      ultimately show ?thesis by simp
    next
      case nomine: False
      let ?b' = "update_cell b r c (\<lambda>y. y\<lparr>hasMine := True\<rparr>)"
      have "(r, c) \<notin> mine_positions b"
        using x nomine by (simp add: mine_positions_def)
      then have "(r, c) \<notin> drawn fmul rnd nr nc i"
        unfolding less.prems(2) .
      then have cardS: "card (drawn fmul rnd nr nc (Suc i)) = Suc (card (drawn fmul rnd nr nc i))"
        unfolding drawn_Suc rc by (simp add: finite_drawn)
      have mp: "mine_positions ?b' = drawn fmul rnd nr nc (Suc i)"
        unfolding mine_positions_place [OF x] drawn_Suc rc less.prems(2) ..
      have "\<exists>b' j. place_mines fmul rnd nr nc m ?b' (placed + 1) (2 * Suc i) = Some (Inr b') \<and>
           wf_board nr nc b' \<and>
           mine_positions b' = drawn fmul rnd nr nc j \<and> int (card (drawn fmul rnd nr nc j)) = m \<and> fresh b'"
      proof (intro less.hyps)
        show "n - Suc i < n - i" using \<open>i < n\<close> by simp
        show "wf_board nr nc ?b'" using less.prems(1) by (rule wf_board_update_cell)
        show "mine_positions ?b' = drawn fmul rnd nr nc (Suc i)" by (rule mp)
        show "placed + 1 = int (card (drawn fmul rnd nr nc (Suc i)))"
          using less.prems(3) cardS by simp
        show "placed + 1 \<le> m" using True by simp
        show "fresh ?b'" using x less.prems(5) by (rule fresh_place)
      qed
      moreover have "place_mines fmul rnd nr nc m b placed (2 * i) =
                     place_mines fmul rnd nr nc m ?b' (placed + 1) (2 * Suc i)"
        using True x nomine r c by (subst place_mines.simps) (simp add: Let_def)
      ultimately show ?thesis by simp
    qed
  qed
qed

lemma distinct_neighbors8: "distinct (neighbors8 r c)"
proof -
  have "distinct deltas" by (simp add: deltas_eq)
  moreover have "inj_on (\<lambda>d. (r + fst d, c + snd d)) (set deltas)"
    by (auto simp: inj_on_def)
  ultimately show ?thesis by (simp add: neighbors8_def distinct_map)
qed

lemma fold_adjacent_step:
  assumes "wf_board nr nc b"
  shows "fold (adjacent_step b r c) ds (Inr n) =
           Inr (n + length (filter (\<lambda>q. q \<in> mine_positions b)
                       (map (\<lambda>d. (r + fst d, c + snd d)) ds)))"
proof (induction ds arbitrary: n)
  case Nil
  then show ?case by simp
next
  case (Cons d ds)
  let ?r = "r + fst d" and ?c = "c + snd d"
  have len0: "0 < nr \<Longrightarrow> int (length (b ! 0)) = nc"
    using assms by (auto simp: wf_board_def list_all_length)
  have step: "adjacent_step b r c d (Inr n) =
                Inr (if (?r, ?c) \<in> mine_positions b then n + 1 else n)"
  proof (cases "cell_at b ?r ?c")
    case None
    then have out: "\<not> (0 \<le> ?r \<and> ?r < nr \<and> 0 \<le> ?c \<and> ?c < nc)"
      using wf_board_cell_at_None [OF assms] by simp
    have "\<not> (?r \<ge> 0 \<and> ?r < int (length b) \<and> ?c \<ge> 0 \<and> ?c < int (length (b ! 0)))"
    proof
      assume h: "?r \<ge> 0 \<and> ?r < int (length b) \<and> ?c \<ge> 0 \<and> ?c < int (length (b ! 0))"
      then have "0 < nr" "?r < nr" using assms by (auto simp: wf_board_def)
      then show False using h out len0 by simp
    qed
    then have cond: "(?r \<ge> 0 \<and> ?r < int (length b) \<and> ?c \<ge> 0 \<and> ?c < int (length (b ! 0))) = False"
      by simp
    have "(?r, ?c) \<notin> mine_positions b" using None by (simp add: mine_positions_def)
    then show ?thesis unfolding adjacent_step_def Let_def cond by simp
  next
    case (Some x)
    then have inb: "0 \<le> ?r \<and> ?r < nr \<and> 0 \<le> ?c \<and> ?c < nc"
      using wf_board_cell_at_None [OF assms, of ?r ?c] by simp
    then have "?r \<ge> 0 \<and> ?r < int (length b) \<and> ?c \<ge> 0 \<and> ?c < int (length (b ! 0))"
      using assms len0 by (auto simp: wf_board_def)
    then have cond: "(?r \<ge> 0 \<and> ?r < int (length b) \<and> ?c \<ge> 0 \<and> ?c < int (length (b ! 0))) = True"
      by simp
    have "(?r, ?c) \<in> mine_positions b \<longleftrightarrow> hasMine x"
      using Some by (simp add: mine_positions_def)
    then show ?thesis unfolding adjacent_step_def Let_def cond using Some by simp
  qed
  show ?case by (simp add: step Cons.IH)
qed

lemma countAdjacentMines_wf:
  assumes "wf_board nr nc b"
  shows "countAdjacentMines b r c = Inr (adjacent_mines b r c)"
proof -
  let ?ns = "filter (\<lambda>q. q \<in> mine_positions b) (neighbors8 r c)"
  have "distinct ?ns" by (simp add: distinct_neighbors8)
  then have "card (set ?ns) = length ?ns" by (rule distinct_card)
  moreover have "set ?ns = set (neighbors8 r c) \<inter> mine_positions b" by auto
  ultimately have "length ?ns = adjacent_mines b r c" by (simp add: adjacent_mines_def)
  then show ?thesis
    unfolding countAdjacentMines_def fold_adjacent_step [OF assms]
    by (simp add: neighbors8_def)
qed

lemma mine_positions_count:
  assumes "cell_at b r c = Some x"
  shows "mine_positions (update_cell b r c (\<lambda>y. y\<lparr>neighborMines := n\<rparr>)) = mine_positions b"
proof -
  have "(\<exists>y. cell_at (update_cell b r c (\<lambda>y. y\<lparr>neighborMines := n\<rparr>)) r' c' = Some y \<and> hasMine y)
          \<longleftrightarrow> (\<exists>y. cell_at b r' c' = Some y \<and> hasMine y)" for r' c'
    using assms by (cases "r' = r \<and> c' = c") (auto simp: cell_at_update_cell [OF assms])
  then show ?thesis by (simp add: mine_positions_def)
qed

lemma fold_count_cells:
  assumes "wf_board nr nc b" "\<forall>p\<in>set ps. 0 \<le> fst p \<and> fst p < nr \<and> 0 \<le> snd p \<and> snd p < nc"
  shows "\<exists>b'. fold count_step ps (Inr b) = Inr b' \<and> wf_board nr nc b' \<and>
           mine_positions b' = mine_positions b \<and>
           (\<forall>r c. cell_at b' r c =
              map_option (\<lambda>x. if (r, c) \<in> set ps \<and> \<not> hasMine x
                               then x\<lparr>neighborMines := adjacent_mines b r c\<rparr> else x)
                (cell_at b r c))"
  using assms
proof (induction ps arbitrary: b)
  case Nil
  then show ?case by (simp add: option.map_ident)
next
  case (Cons p ps)
  then obtain x where x: "cell_at b (fst p) (snd p) = Some x"
    using wf_board_cell_at_None [OF Cons.prems(1), of "fst p" "snd p"] by auto
  let ?b1 = "if \<not> hasMine x
             then update_cell b (fst p) (snd p) (\<lambda>y. y\<lparr>neighborMines := adjacent_mines b (fst p) (snd p)\<rparr>)
             else b"
  have step: "count_step p (Inr b) = Inr ?b1"
    using x by (simp add: count_step_def countAdjacentMines_wf [OF Cons.prems(1)])
  have wf1: "wf_board nr nc ?b1" using Cons.prems(1) by (simp add: wf_board_update_cell)
  have mp1: "mine_positions ?b1 = mine_positions b" by (simp add: mine_positions_count [OF x])
  then have am1: "adjacent_mines ?b1 r c = adjacent_mines b r c" for r c
    unfolding adjacent_mines_def by simp
  have cells1: "cell_at ?b1 r c =
      map_option (\<lambda>y. if (r, c) = p \<and> \<not> hasMine y
                       then y\<lparr>neighborMines := adjacent_mines b r c\<rparr> else y) (cell_at b r c)"
    for r c
  proof (cases "(r, c) = p")
    case True
    then have "r = fst p" "c = snd p" by auto
    then show ?thesis using True x by (simp add: cell_at_update_cell [OF x])
  next
    case False
    then have "\<not> (r = fst p \<and> c = snd p)" by auto
    then have "cell_at ?b1 r c = cell_at b r c"
      unfolding cell_at_update_cell [OF x] by (auto simp: cell_at_update_cell [OF x])
    then show ?thesis using False by (simp add: option.map_ident)
  qed
  from Cons.IH [OF wf1] Cons.prems(2) obtain b' where
    b': "fold count_step ps (Inr ?b1) = Inr b'" "wf_board nr nc b'"
      "mine_positions b' = mine_positions ?b1"
    and cells': "\<And>r c. cell_at b' r c =
              map_option (\<lambda>x. if (r, c) \<in> set ps \<and> \<not> hasMine x
                               then x\<lparr>neighborMines := adjacent_mines ?b1 r c\<rparr> else x)
                (cell_at ?b1 r c)"
    by auto
  have "cell_at b' r c =
          map_option (\<lambda>x. if (r, c) \<in> set (p # ps) \<and> \<not> hasMine x
                           then x\<lparr>neighborMines := adjacent_mines b r c\<rparr> else x)
            (cell_at b r c)" for r c
    unfolding cells' am1 cells1 by (cases "cell_at b r c") auto
  then show ?case using step b' mp1 by simp
qed

lemma createBoard_returns:
  assumes dims: "1 \<le> nr" "1 \<le> nc" and m: "0 \<le> m"
    and inb: "drawn fmul rnd nr nc n \<subseteq> on_board nr nc"
    and fair: "nat m \<le> card (drawn fmul rnd nr nc n)"
  shows "\<exists>b. createBoard fmul rnd nr nc m = Some (Inr b) \<and> wf_board nr nc b \<and>
           card (mine_positions b) = nat m \<and>
           (\<forall>r c x. cell_at b r c = Some x \<longrightarrow>
              state x = Closed \<and> (\<not> hasMine x \<longrightarrow> neighborMines x = adjacent_mines b r c))"
proof -
  let ?b0 = "replicate (nat nr) (replicate (nat nc) (createCell False))"
  have wf0: "wf_board nr nc ?b0" using dims by (simp add: wf_board_replicate)
  have cell0: "y = createCell False" if "cell_at ?b0 r c = Some y" for r c y
    using that by (rule cell_at_replicate)
  have "\<not> hasMine y \<and> state y = Closed \<and> neighborMines y = 0" if "cell_at ?b0 r c = Some y" for r c y
    using cell0 [OF that] by (simp add: createCell_def)
  then have "mine_positions ?b0 = {}" and fresh0: "fresh ?b0"
    unfolding mine_positions_def fresh_def by blast+
  then have mp0: "mine_positions ?b0 = drawn fmul rnd nr nc 0" by (simp add: drawn_def)
  have "\<exists>b' j. place_mines fmul rnd nr nc m ?b0 0 (2 * 0) = Some (Inr b') \<and> wf_board nr nc b' \<and>
           mine_positions b' = drawn fmul rnd nr nc j \<and> int (card (drawn fmul rnd nr nc j)) = m \<and> fresh b'"
    using inb fair wf0 mp0 _ m fresh0 by (rule place_mines_returns) (simp add: drawn_def)
  then obtain b1 j where b1: "place_mines fmul rnd nr nc m ?b0 0 0 = Some (Inr b1)"
    "wf_board nr nc b1" "mine_positions b1 = drawn fmul rnd nr nc j"
    "int (card (drawn fmul rnd nr nc j)) = m" "fresh b1"
    by auto
  have "\<forall>p\<in>set (coords nr nc). 0 \<le> fst p \<and> fst p < nr \<and> 0 \<le> snd p \<and> snd p < nc"
    by (auto simp: set_coords)
  from fold_count_cells [OF b1(2) this] obtain b where
    b: "fold count_step (coords nr nc) (Inr b1) = Inr b" "wf_board nr nc b"
      "mine_positions b = mine_positions b1"
    and cells: "\<And>r c. cell_at b r c =
              map_option (\<lambda>x. if (r, c) \<in> set (coords nr nc) \<and> \<not> hasMine x
                               then x\<lparr>neighborMines := adjacent_mines b1 r c\<rparr> else x)
                (cell_at b1 r c)"
    by blast
  have am: "adjacent_mines b r c = adjacent_mines b1 r c" for r c
    unfolding adjacent_mines_def b(3) ..
  have res: "createBoard fmul rnd nr nc m = Some (Inr b)"
    using b1(1) b(1) by (simp add: createBoard_def)
  have card: "card (mine_positions b) = nat m"
    using b(3) b1(3,4) by simp
  have "state x = Closed \<and> (\<not> hasMine x \<longrightarrow> neighborMines x = adjacent_mines b r c)"
    if x: "cell_at b r c = Some x" for r c x
  proof -
    from x obtain y where y: "cell_at b1 r c = Some y"
      and xy: "x = (if (r, c) \<in> set (coords nr nc) \<and> \<not> hasMine y
                    then y\<lparr>neighborMines := adjacent_mines b1 r c\<rparr> else y)"
      unfolding cells by (cases "cell_at b1 r c") auto
    have "(r, c) \<in> set (coords nr nc)"
      using y wf_board_cell_at_None [OF b1(2), of r c] by (auto simp: set_coords)
    moreover have "state y = Closed" using y b1(5) by (auto simp: fresh_def)
    ultimately show ?thesis using xy am by auto
  qed
  then show ?thesis using res b(2) card by blast
qed

text \<open>The placement loop never ends when the draws never reach the number of mines asked for.\<close>

lemma place_mines_diverges:
  assumes inb: "\<And>n. drawn fmul rnd nr nc n \<subseteq> on_board nr nc"
    and short: "\<And>n. card (drawn fmul rnd nr nc n) < nat m"
    and inv: "wf_board nr nc b" "mine_positions b = drawn fmul rnd nr nc i"
      "placed = int (card (drawn fmul rnd nr nc i))"
  shows "place_mines fmul rnd nr nc m b placed (2 * i) = None"
proof (rule ccontr)
  assume "place_mines fmul rnd nr nc m b placed (2 * i) \<noteq> None"
  then obtain y where y: "place_mines fmul rnd nr nc m b placed (2 * i) = Some y" by auto
  let ?P = "\<lambda>fmul' rnd' nr' nc' m' b' placed' k (y :: error + board).
      \<not> (fmul' = fmul \<and> rnd' = rnd \<and> nr' = nr \<and> nc' = nc \<and> m' = m \<and>
         (\<exists>j. k = 2 * j \<and> wf_board nr nc b' \<and> mine_positions b' = drawn fmul rnd nr nc j \<and>
              placed' = int (card (drawn fmul rnd nr nc j))))"
  have "?P fmul rnd nr nc m b placed (2 * i) y"
  proof (rule place_mines.raw_induct [where P = ?P, OF _ y], rule notI, elim conjE exE, goal_cases)
    case (1 pm fmul' rnd' nr' nc' m' b' placed' k y' j)
    then have eqs: "fmul' = fmul" "rnd' = rnd" "nr' = nr" "nc' = nc" "m' = m" "k = 2 * j"
      and wfb: "wf_board nr nc b'" and mpb: "mine_positions b' = drawn fmul rnd nr nc j"
      and pl: "placed' = int (card (drawn fmul rnd nr nc j))"
      by simp_all
    have IH: False
      if "pm fmul rnd nr nc m b2 placed2 (2 * j2) = Some y2" "wf_board nr nc b2"
        "mine_positions b2 = drawn fmul rnd nr nc j2" "placed2 = int (card (drawn fmul rnd nr nc j2))"
      for b2 placed2 j2 y2
      using 1(1) [OF that(1)] that(2-4) by blast
    have lt: "placed' < m" using short [of j] pl by simp
    obtain r c where rc: "draw fmul rnd nr nc j = (r, c)" by (cases "draw fmul rnd nr nc j")
    then have r: "r = \<lfloor>fmul (rnd (2 * j)) (of_int nr)\<rfloor>"
      and c: "c = \<lfloor>fmul (rnd (2 * j + 1)) (of_int nc)\<rfloor>"
      by (simp_all add: draw_def)
    have "draw fmul rnd nr nc j \<in> drawn fmul rnd nr nc (Suc j)" by (simp add: drawn_def)
    then have "(r, c) \<in> on_board nr nc" using inb [of "Suc j"] rc by auto
    then have "0 \<le> r \<and> r < nr" "0 \<le> c \<and> c < nc" by (simp_all add: on_board_def)
    then obtain x where x: "cell_at b' r c = Some x"
      using wf_board_cell_at_None [OF wfb, of r c] by auto
    have "(if \<not> hasMine x
           then pm fmul rnd nr nc m (update_cell b' r c (\<lambda>y. y\<lparr>hasMine := True\<rparr>)) (placed' + 1) (2 * j + 2)
           else pm fmul rnd nr nc m b' placed' (2 * j + 2)) = Some y'"
      using 1(2) lt x unfolding eqs r c by (auto simp: Let_def split: if_splits)
    moreover have "2 * j + 2 = 2 * Suc j" by simp
    ultimately have body: "(if \<not> hasMine x
           then pm fmul rnd nr nc m (update_cell b' r c (\<lambda>y. y\<lparr>hasMine := True\<rparr>)) (placed' + 1) (2 * Suc j)
           else pm fmul rnd nr nc m b' placed' (2 * Suc j)) = Some y'"
      by (simp only:)
    show ?case
    proof (cases "hasMine x")
      case True
      then have "(r, c) \<in> mine_positions b'" using x by (auto simp: mine_positions_def)
      then have same: "drawn fmul rnd nr nc (Suc j) = drawn fmul rnd nr nc j"
        unfolding drawn_Suc rc mpb by auto
      have "pm fmul rnd nr nc m b' placed' (2 * Suc j) = Some y'" using body True by simp
      then show False using wfb by (rule IH) (simp_all add: same mpb pl)
    next
      case False
      let ?b = "update_cell b' r c (\<lambda>y. y\<lparr>hasMine := True\<rparr>)"
      have "(r, c) \<notin> mine_positions b'" using x False by (simp add: mine_positions_def)
      then have notin: "(r, c) \<notin> drawn fmul rnd nr nc j" unfolding mpb .
      then have cardS: "card (drawn fmul rnd nr nc (Suc j)) = Suc (card (drawn fmul rnd nr nc j))"
        unfolding drawn_Suc rc by (simp add: finite_drawn)
      have mp: "mine_positions ?b = drawn fmul rnd nr nc (Suc j)"
        unfolding mine_positions_place [OF x] drawn_Suc rc mpb ..
      have wf: "wf_board nr nc ?b" using wfb by (rule wf_board_update_cell)
      have "pm fmul rnd nr nc m ?b (placed' + 1) (2 * Suc j) = Some y'" using body False by simp
      then show False using wf mp by (rule IH) (simp add: cardS pl)
    qed
  qed
  then show False using inv by blast
qed

lemma createBoard_diverges:
  assumes dims: "0 \<le> nr" "0 \<le> nc"
    and inb: "\<And>n. drawn fmul rnd nr nc n \<subseteq> on_board nr nc"
    and short: "\<And>n. card (drawn fmul rnd nr nc n) < nat m"
  shows "createBoard fmul rnd nr nc m = None"
proof -
  let ?b0 = "replicate (nat nr) (replicate (nat nc) (createCell False))"
  have wf0: "wf_board nr nc ?b0" using dims by (simp add: wf_board_replicate)
  have "\<not> hasMine y" if "cell_at ?b0 r c = Some y" for r c y
    using cell_at_replicate [OF that] by (simp add: createCell_def)
  then have "mine_positions ?b0 = {}" unfolding mine_positions_def by blast
  then have mp0: "mine_positions ?b0 = drawn fmul rnd nr nc 0" by (simp add: drawn_def)
  have "place_mines fmul rnd nr nc m ?b0 0 (2 * 0) = None"
    using inb short wf0 mp0 by (rule place_mines_diverges) (simp add: drawn_def)
  then show ?thesis by (simp add: createBoard_def)
qed

lemma drawn_zero_source: "drawn double_product zero_source nr nc n \<subseteq> {(0, 0)}"
  by (auto simp: drawn_def draw_def zero_source_def double_product_zero)

lemma drawn_diagonal_source: "drawn double_product diagonal_source 2 2 3 = {(0, 0), (1, 1)}"
proof -
  have "{..<3::nat} = {0, 1, 2}" by auto
  then show ?thesis
    by (auto simp: drawn_def draw_def diagonal_source_def double_product_zero
        double_product_half_two)
qed

lemma drawn_full_source: "drawn double_product full_source 2 2 4 = {(0, 0), (0, 1), (1, 0), (1, 1)}"
proof -
  have "{..<4::nat} = {0, 1, 2, 3}" by auto
  then show ?thesis
    by (auto simp: drawn_def draw_def full_source_def double_product_zero
        double_product_half_two)
qed

text \<open>
  The values of \<open>Math.random()\<close> are doubles from 0 up to \<open>1 - 1 / 2 ^ 53\<close>, the largest
  double below 1: with the double product, the positions drawn are on the board.
\<close>

lemma drawn_double_product_on_board:
  assumes rnd: "\<And>k. 0 \<le> rnd k \<and> rnd k \<le> 1 - 1 / 2 ^ 53"
    and "1 \<le> nr" "nr \<le> 2 ^ 53" "1 \<le> nc" "nc \<le> 2 ^ 53"
  shows "drawn double_product rnd nr nc n \<subseteq> on_board nr nc"
proof
  fix p
  assume "p \<in> drawn double_product rnd nr nc n"
  then obtain i where p: "p = draw double_product rnd nr nc i" by (auto simp: drawn_def)
  have "0 \<le> \<lfloor>double_product (rnd (2 * i)) (of_int nr)\<rfloor> \<and>
        \<lfloor>double_product (rnd (2 * i)) (of_int nr)\<rfloor> < nr"
    using rnd [of "2 * i"] assms(2,3) by (intro double_product_on_board) simp_all
  moreover have "0 \<le> \<lfloor>double_product (rnd (2 * i + 1)) (of_int nc)\<rfloor> \<and>
        \<lfloor>double_product (rnd (2 * i + 1)) (of_int nc)\<rfloor> < nc"
    using rnd [of "2 * i + 1"] assms(4,5) by (intro double_product_on_board) simp_all
  ultimately show "p \<in> on_board nr nc" by (simp add: p draw_def on_board_def)
qed

lemma card_positions:
  assumes "0 \<le> nr" "0 \<le> nc"
  shows "card (on_board nr nc) = nat (nr * nc)"
  using assms by (simp add: on_board_def card_cartesian_product nat_mult_distrib)

lemma finite_on_board: "finite (on_board nr nc)"
  by (simp add: on_board_def)

text \<open>With more mines asked for than the board has cells, the generator never returns.\<close>

lemma createBoard_overfull:
  assumes "1 \<le> nr" "1 \<le> nc" "nr * nc < m"
    and inb: "\<And>n. drawn fmul rnd nr nc n \<subseteq> on_board nr nc"
  shows "createBoard fmul rnd nr nc m = None"
proof (rule createBoard_diverges [OF _ _ inb])
  show "0 \<le> nr" "0 \<le> nc" using assms(1,2) by simp_all
next
  fix n
  have cp: "card (on_board nr nc) = nat (nr * nc)"
    using assms(1,2) by (intro card_positions) simp_all
  have "card (drawn fmul rnd nr nc n) \<le> card (on_board nr nc)"
    by (rule card_mono [OF finite_on_board inb])
  then have "card (drawn fmul rnd nr nc n) \<le> nat (nr * nc)"
    unfolding cp .
  moreover have "0 \<le> nr * nc" using assms(1,2) by simp
  then have "nat (nr * nc) < nat m" using assms(3) by (simp add: nat_less_eq_zless)
  ultimately show "card (drawn fmul rnd nr nc n) < nat m" by (rule le_less_trans)
qed

lemma mine_positions_in_bounds:
  assumes "wf_board nr nc b"
  shows "mine_positions b \<subseteq> on_board nr nc"
proof
  fix p assume "p \<in> mine_positions b"
  then obtain r c x where p: "p = (r, c)" and x: "cell_at b r c = Some x"
    by (auto simp: mine_positions_def)
  then show "p \<in> on_board nr nc"
    using wf_board_cell_at_None [OF assms, of r c] by (auto simp: on_board_def)
qed

section \<open>Properties of the game engine and the board generator\<close>

text \<open>
  C1 (as stated it fails: see the counterexample). The source whose every value is 0 is
  an outcome of the random source (the products \<open>0 * 1\<close> and \<open>0 * 2\<close> are 0 as doubles too),
  and on a board of 1 row and 2 columns with 2 mines asked for, the placement loop draws
  the position \<open>(0, 0)\<close> for ever: \<open>createBoard\<close> does not return.
\<close>

theorem constant_source_never_returns:
  "(1::int) \<le> 1 \<and> (1::int) \<le> 2 \<and> (0::int) \<le> 2 \<and> (2::int) \<le> 1 * 2 \<and>
   createBoard double_product zero_source 1 2 2 = None"
proof -
  have "card (drawn double_product zero_source 1 2 n) < nat 2" for n
  proof -
    have "card (drawn double_product zero_source 1 2 n) \<le> card {(0::int, 0::int)}"
      by (rule card_mono [OF _ drawn_zero_source]) simp
    then show ?thesis by simp
  qed
  moreover have "drawn double_product zero_source 1 2 n \<subseteq> on_board 1 2" for n
    using drawn_zero_source [of 1 2 n] by (auto simp: on_board_def)
  ultimately have "createBoard double_product zero_source 1 2 2 = None"
    by (intro createBoard_diverges) simp_all
  then show ?thesis by simp
qed

text \<open>
  C1, amended. For \<open>nr \<ge> 1\<close> rows, \<open>nc \<ge> 1\<close> columns, \<open>m \<ge> 0\<close> mines, and every random source
  and double product for which the positions that the placement loop draws in its first
  \<open>n\<close> iterations, for some \<open>n\<close>, are positions of the board and are at least \<open>m\<close> distinct
  ones, \<open>createBoard\<close> returns a board of \<open>nr\<close> rows of \<open>nc\<close> cells in which exactly \<open>m\<close>
  positions have a mine, every cell is Closed, and every cell without a mine has for
  \<open>neighborMines\<close> the number of its neighbours, among the eight positions around it that
  are on the board, that have a mine.
\<close>

theorem createBoard_correct:
  assumes "1 \<le> nr" "1 \<le> nc" "0 \<le> m"
    and "drawn fmul rnd nr nc n \<subseteq> on_board nr nc"
    and "nat m \<le> card (drawn fmul rnd nr nc n)"
  shows "\<exists>b. createBoard fmul rnd nr nc m = Some (Inr b) \<and> wf_board nr nc b \<and>
           card (mine_positions b) = nat m \<and>
           (\<forall>r c x. cell_at b r c = Some x \<longrightarrow>
              state x = Closed \<and> (\<not> hasMine x \<longrightarrow> neighborMines x = adjacent_mines b r c))"
  using assms by (rule createBoard_returns)

theorem createBoard_correct_witness:
  "(1::int) \<le> 2 \<and> (0::int) \<le> 2 \<and>
   drawn double_product diagonal_source 2 2 3 \<subseteq> on_board 2 2 \<and>
   nat 2 \<le> card (drawn double_product diagonal_source 2 2 3) \<and>
   createBoard double_product diagonal_source 2 2 2 =
     Some (Inr [[\<lparr>hasMine = True, neighborMines = 0, state = Closed\<rparr>,
                 \<lparr>hasMine = False, neighborMines = 2, state = Closed\<rparr>],
                [\<lparr>hasMine = False, neighborMines = 2, state = Closed\<rparr>,
                 \<lparr>hasMine = True, neighborMines = 0, state = Closed\<rparr>]]) \<and>
   card (mine_positions [[\<lparr>hasMine = True, neighborMines = 0, state = Closed\<rparr>,
                 \<lparr>hasMine = False, neighborMines = 2, state = Closed\<rparr>],
                [\<lparr>hasMine = False, neighborMines = 2, state = Closed\<rparr>,
                 \<lparr>hasMine = True, neighborMines = 0, state = Closed\<rparr>]]) = 2 \<and>
   adjacent_mines [[\<lparr>hasMine = True, neighborMines = 0, state = Closed\<rparr>,
                 \<lparr>hasMine = False, neighborMines = 2, state = Closed\<rparr>],
                [\<lparr>hasMine = False, neighborMines = 2, state = Closed\<rparr>,
                 \<lparr>hasMine = True, neighborMines = 0, state = Closed\<rparr>]] 0 1 = 2"
proof -
  let ?b = "[[\<lparr>hasMine = True, neighborMines = 0, state = Closed\<rparr>,
              \<lparr>hasMine = False, neighborMines = 2, state = Closed\<rparr>],
             [\<lparr>hasMine = False, neighborMines = 2, state = Closed\<rparr>,
              \<lparr>hasMine = True, neighborMines = 0, state = Closed\<rparr>]]"
  have inb: "drawn double_product diagonal_source 2 2 3 \<subseteq> on_board 2 2"
    by (simp add: drawn_diagonal_source on_board_def)
  have fair: "nat 2 \<le> card (drawn double_product diagonal_source 2 2 3)"
    by (simp add: drawn_diagonal_source)
  have res: "createBoard double_product diagonal_source 2 2 2 = Some (Inr ?b)" by code_simp
  have c01: "cell_at ?b 0 1 = Some \<lparr>hasMine = False, neighborMines = 2, state = Closed\<rparr>"
    by (simp add: cell_at_def js_index_def)
  from createBoard_correct [OF _ _ _ inb fair] res
  have card: "card (mine_positions ?b) = nat 2"
    and cells: "\<And>r c x. cell_at ?b r c = Some x \<Longrightarrow>
              state x = Closed \<and> (\<not> hasMine x \<longrightarrow> neighborMines x = adjacent_mines ?b r c)"
    by auto
  have "adjacent_mines ?b 0 1 = 2" using cells [OF c01] by simp
  then show ?thesis using inb fair res card by simp
qed

text \<open>
  C2 (as stated it fails: see the counterexample). In the row of three cells without
  mines, all with \<open>neighborMines = 0\<close>, whose middle cell is Flagged, the cell \<open>(0, 2)\<close> is a
  zero-neighbor cell reached from the seed \<open>(0, 0)\<close> through zero-neighbor cells, and
  \<open>openCell\<close> at \<open>(0, 0)\<close> leaves it Closed: only the seed is opened.
\<close>

theorem flood_stops_at_flag:
  "wf_game flaggedRow \<and> status flaggedRow = InProgress \<and>
   cell_at (board flaggedRow) 0 0 = Some \<lparr>hasMine = False, neighborMines = 0, state = Closed\<rparr> \<and>
   (0, 2) \<in> stated_zero_region (board flaggedRow) (0, 0) \<and>
   openCell flaggedRow 0 0 =
     Some (None, \<lparr>rows = 1, cols = 3, mines = 0, status = InProgress, board =
       [[\<lparr>hasMine = False, neighborMines = 0, state = Open\<rparr>,
         \<lparr>hasMine = False, neighborMines = 0, state = Flagged\<rparr>,
         \<lparr>hasMine = False, neighborMines = 0, state = Closed\<rparr>]]\<rparr>)"
proof -
  have z: "zero_neighbor_cell (board flaggedRow) (0, 0)" "zero_neighbor_cell (board flaggedRow) (0, 1)"
    "zero_neighbor_cell (board flaggedRow) (0, 2)"
    by (simp_all add: zero_neighbor_cell_def cell_at_flaggedRow)
  have "(0, 0) \<in> stated_zero_region (board flaggedRow) (0, 0)"
    using z(1) by (rule stated_zero_region.seed)
  then have "(0, 1) \<in> stated_zero_region (board flaggedRow) (0, 0)"
    by (rule stated_zero_region.step) (simp_all add: neighbors8_mem z)
  then have "(0, 2) \<in> stated_zero_region (board flaggedRow) (0, 0)"
    by (rule stated_zero_region.step) (simp_all add: neighbors8_mem z)
  moreover have "wf_game flaggedRow" by code_simp
  moreover have "status flaggedRow = InProgress" by (simp add: flaggedRow_def)
  moreover have "openCell flaggedRow 0 0 =
     Some (None, \<lparr>rows = 1, cols = 3, mines = 0, status = InProgress, board =
       [[\<lparr>hasMine = False, neighborMines = 0, state = Open\<rparr>,
         \<lparr>hasMine = False, neighborMines = 0, state = Flagged\<rparr>,
         \<lparr>hasMine = False, neighborMines = 0, state = Closed\<rparr>]]\<rparr>)"
    by code_simp
  ultimately show ?thesis using cell_at_flaggedRow(1) by simp
qed

text \<open>
  C2, amended. On a well-formed game in progress, \<open>openCell\<close> at a Closed cell without a mine
  and with \<open>neighborMines = 0\<close> returns without exception, and what it opens is exactly the
  flood region of the seed: the Closed cells without a mine and with \<open>neighborMines = 0\<close>
  reached from the seed through such cells (steps to the eight neighbours), and the Closed
  cells without a mine next to one of them. The seed is in the region; every cell of the
  region was Closed, has no mine, and is Open afterwards with its other fields kept; every
  position outside the region holds what it held; no cell with a mine changes.
\<close>

theorem openCell_flood_reveal:
  assumes "wf_game g" "status g = InProgress"
    and "cell_at (board g) r c = Some x" "state x = Closed" "\<not> hasMine x" "neighborMines x = 0"
  shows "\<exists>g'. openCell g r c = Some (None, g') \<and>
           (r, c) \<in> flood_region (board g) (r, c) \<and>
           (\<forall>r' c' y. cell_at (board g) r' c' = Some y \<and> (r', c') \<in> flood_region (board g) (r, c) \<longrightarrow>
              state y = Closed \<and> \<not> hasMine y \<and> cell_at (board g') r' c' = Some (y\<lparr>state := Open\<rparr>)) \<and>
           (\<forall>r' c'. (r', c') \<notin> flood_region (board g) (r, c) \<longrightarrow>
              cell_at (board g') r' c' = cell_at (board g) r' c') \<and>
           (\<forall>r' c' y. cell_at (board g) r' c' = Some y \<and> hasMine y \<longrightarrow>
              cell_at (board g') r' c' = Some y)"
proof -
  let ?R = "flood_region (board g) (r, c)"
  from openCell_flood [OF assms] obtain g' where res: "openCell g r c = Some (None, g')"
    and cells: "\<And>r' c'. cell_at (board g') r' c' =
        map_option (\<lambda>y. if (r', c') \<in> ?R then y\<lparr>state := Open\<rparr> else y) (cell_at (board g) r' c')"
    by blast
  have "zero_cell (board g) (r, c)" using assms(3-6) by (simp add: zero_cell_def)
  then have seed: "(r, c) \<in> ?R" using zero_region_subset zero_region.seed by blast
  have safe: "state y = Closed \<and> \<not> hasMine y"
    if "cell_at (board g) r' c' = Some y" "(r', c') \<in> ?R" for r' c' y
    using that by (simp add: flood_region_def closed_safe_def)
  have inside: "cell_at (board g') r' c' = Some (y\<lparr>state := Open\<rparr>)"
    if "cell_at (board g) r' c' = Some y" "(r', c') \<in> ?R" for r' c' y
    using that by (simp add: cells)
  have outside: "cell_at (board g') r' c' = cell_at (board g) r' c'" if "(r', c') \<notin> ?R" for r' c'
    using that by (simp add: cells option.map_ident)
  have mine: "cell_at (board g') r' c' = Some y"
    if "cell_at (board g) r' c' = Some y" "hasMine y" for r' c' y
  proof -
    have "(r', c') \<notin> ?R" using that by (simp add: flood_region_def closed_safe_def)
    then show ?thesis using that(1) by (simp add: outside)
  qed
  show ?thesis using res seed safe inside outside mine by blast
qed

theorem openCell_flood_reveal_witness:
  "wf_game sampleGame \<and> status sampleGame = InProgress \<and>
   cell_at (board sampleGame) 2 0 = Some \<lparr>hasMine = False, neighborMines = 0, state = Closed\<rparr> \<and>
   cell_at (board sampleGame) 2 1 = Some \<lparr>hasMine = False, neighborMines = 2, state = Closed\<rparr> \<and>
   cell_at (board sampleGame) 1 1 = Some \<lparr>hasMine = True, neighborMines = 0, state = Closed\<rparr> \<and>
   (2, 1) \<in> flood_region (board sampleGame) (2, 0) \<and>
   (\<exists>g'. openCell sampleGame 2 0 = Some (None, g') \<and>
      cell_at (board g') 2 0 = Some \<lparr>hasMine = False, neighborMines = 0, state = Open\<rparr> \<and>
      cell_at (board g') 2 1 = Some \<lparr>hasMine = False, neighborMines = 2, state = Open\<rparr> \<and>
      cell_at (board g') 1 1 = Some \<lparr>hasMine = True, neighborMines = 0, state = Closed\<rparr>)"
proof -
  have wf: "wf_game sampleGame" by code_simp
  have st: "status sampleGame = InProgress" by (simp add: sampleGame_def)
  have "zero_cell (board sampleGame) (2, 0)"
    by (simp add: zero_cell_def cell_at_sampleGame)
  then have "(2, 0) \<in> zero_region (board sampleGame) (2, 0)" by (rule zero_region.seed)
  moreover have "(2, 1) \<in> set (neighbors8 (fst (2, 0)) (snd (2, 0)))" by (simp add: neighbors8_mem)
  moreover have "closed_safe (board sampleGame) (2, 1)"
    by (simp add: closed_safe_def cell_at_sampleGame)
  ultimately have reg: "(2, 1) \<in> flood_region (board sampleGame) (2, 0)"
    by (rule flood_region_border)
  from openCell_flood_reveal [OF wf st cell_at_sampleGame(1)]
  obtain g' where res: "openCell sampleGame 2 0 = Some (None, g')"
    and seed: "(2, 0) \<in> flood_region (board sampleGame) (2, 0)"
    and inside: "\<And>r' c' y. cell_at (board sampleGame) r' c' = Some y \<and>
          (r', c') \<in> flood_region (board sampleGame) (2, 0) \<Longrightarrow>
          cell_at (board g') r' c' = Some (y\<lparr>state := Open\<rparr>)"
    and mine: "\<And>r' c' y. cell_at (board sampleGame) r' c' = Some y \<and> hasMine y \<Longrightarrow>
          cell_at (board g') r' c' = Some y"
    by auto
  have "cell_at (board g') 2 0 = Some \<lparr>hasMine = False, neighborMines = 0, state = Open\<rparr>"
    using inside [of 2 0] cell_at_sampleGame(1) seed by simp
  moreover have "cell_at (board g') 2 1 = Some \<lparr>hasMine = False, neighborMines = 2, state = Open\<rparr>"
    using inside [of 2 1] cell_at_sampleGame(2) reg by simp
  moreover have "cell_at (board g') 1 1 = Some \<lparr>hasMine = True, neighborMines = 0, state = Closed\<rparr>"
    using mine [of 1 1] cell_at_sampleGame(3) by simp
  ultimately show ?thesis using wf st cell_at_sampleGame reg res by blast
qed

text \<open>
  C3. On a well-formed game in progress, \<open>openCell\<close> at a Closed cell with a mine returns
  without exception a game with status Lose in which the cell is Open, every cell with a
  mine is Open whatever its state was (Closed, Flagged or Open), with its other fields
  kept, and every cell without a mine is exactly as it was; the size of the board and the
  fields \<open>rows\<close>, \<open>cols\<close>, \<open>mines\<close> are kept.
\<close>

theorem openCell_mine:
  assumes "wf_game g" "status g = InProgress"
    and "cell_at (board g) r c = Some x" "state x = Closed" "hasMine x"
  shows "\<exists>g'. openCell g r c = Some (None, g') \<and> status g' = Lose \<and>
           rows g' = rows g \<and> cols g' = cols g \<and> mines g' = mines g \<and>
           (\<exists>x'. cell_at (board g') r c = Some x' \<and> state x' = Open) \<and>
           (\<forall>r' c' y. cell_at (board g) r' c' = Some y \<and> hasMine y \<longrightarrow>
              cell_at (board g') r' c' = Some (y\<lparr>state := Open\<rparr>)) \<and>
           (\<forall>r' c' y. cell_at (board g) r' c' = Some y \<and> \<not> hasMine y \<longrightarrow>
              cell_at (board g') r' c' = Some y) \<and>
           (\<forall>r' c'. cell_at (board g) r' c' = None \<longrightarrow> cell_at (board g') r' c' = None)"
proof -
  let ?g1 = "g\<lparr>board := update_cell (board g) r c (\<lambda>y. y\<lparr>state := Open\<rparr>), status := Lose\<rparr>"
  have "wf_game (g\<lparr>board := update_cell (board g) r c (\<lambda>y. y\<lparr>state := Open\<rparr>)\<rparr>)"
    using assms(1) by (rule wf_game_update_cell)
  then have wf1: "wf_game ?g1" by (simp add: wf_game_def)
  have cells1: "cell_at (board ?g1) r' c' =
      (if r' = r \<and> c' = c then Some (x\<lparr>state := Open\<rparr>) else cell_at (board g) r' c')" for r' c'
    by (simp add: cell_at_update_cell [OF assms(3)])
  from revealAllMines_wf [OF wf1] obtain g' where
    g': "revealAllMines ?g1 = (None, g')" "rows g' = rows ?g1" "cols g' = cols ?g1"
      "mines g' = mines ?g1" "status g' = status ?g1"
    and cells: "\<And>r' c'. cell_at (board g') r' c' =
        map_option (\<lambda>y. if hasMine y then y\<lparr>state := Open\<rparr> else y) (cell_at (board ?g1) r' c')"
    by blast
  have res: "openCell g r c = Some (None, g')"
    using assms g' by (simp add: openCell_def)
  have self: "cell_at (board g') r c = Some (x\<lparr>state := Open\<rparr>)"
    unfolding cells cells1 using assms(5) by simp
  have mine: "cell_at (board g') r' c' = Some (y\<lparr>state := Open\<rparr>)"
    if "cell_at (board g) r' c' = Some y" "hasMine y" for r' c' y
    unfolding cells cells1 using that assms(3,5) by auto
  have safe: "cell_at (board g') r' c' = Some y"
    if "cell_at (board g) r' c' = Some y" "\<not> hasMine y" for r' c' y
    unfolding cells cells1 using that assms(3,5) by auto
  have none: "cell_at (board g') r' c' = None" if "cell_at (board g) r' c' = None" for r' c'
    unfolding cells cells1 using that assms(3) by auto
  show ?thesis using res g' self mine safe none by auto
qed

theorem openCell_mine_witness:
  "wf_game flaggedSample \<and> status flaggedSample = InProgress \<and>
   cell_at (board flaggedSample) 0 1 = Some \<lparr>hasMine = True, neighborMines = 0, state = Closed\<rparr> \<and>
   cell_at (board flaggedSample) 1 2 = Some \<lparr>hasMine = True, neighborMines = 0, state = Flagged\<rparr> \<and>
   cell_at (board flaggedSample) 0 0 = Some \<lparr>hasMine = False, neighborMines = 1, state = Flagged\<rparr> \<and>
   (\<exists>g'. openCell flaggedSample 0 1 = Some (None, g') \<and> status g' = Lose \<and>
      cell_at (board g') 1 2 = Some \<lparr>hasMine = True, neighborMines = 0, state = Open\<rparr> \<and>
      cell_at (board g') 0 0 = Some \<lparr>hasMine = False, neighborMines = 1, state = Flagged\<rparr> \<and>
      cell_at (board g') 3 3 = None)"
proof -
  have wf: "wf_game flaggedSample" by code_simp
  have st: "status flaggedSample = InProgress" by (simp add: flaggedSample_def)
  have out: "cell_at (board flaggedSample) 3 3 = None"
    by (simp add: flaggedSample_def cell_at_def js_index_def)
  from openCell_mine [OF wf st cell_at_flaggedSample(2)]
  obtain g' where g': "openCell flaggedSample 0 1 = Some (None, g')" "status g' = Lose"
    and mine: "\<And>r' c' y. cell_at (board flaggedSample) r' c' = Some y \<and> hasMine y \<Longrightarrow>
              cell_at (board g') r' c' = Some (y\<lparr>state := Open\<rparr>)"
    and safe: "\<And>r' c' y. cell_at (board flaggedSample) r' c' = Some y \<and> \<not> hasMine y \<Longrightarrow>
              cell_at (board g') r' c' = Some y"
    and none: "\<And>r' c'. cell_at (board flaggedSample) r' c' = None \<Longrightarrow> cell_at (board g') r' c' = None"
    by auto
  have "cell_at (board g') 1 2 = Some \<lparr>hasMine = True, neighborMines = 0, state = Open\<rparr>"
    using mine [of 1 2] cell_at_flaggedSample(4) by simp
  moreover have "cell_at (board g') 0 0 = Some \<lparr>hasMine = False, neighborMines = 1, state = Flagged\<rparr>"
    using safe [of 0 0] cell_at_flaggedSample(1) by simp
  moreover have "cell_at (board g') 3 3 = None" using none [OF out] .
  ultimately show ?thesis using wf st cell_at_flaggedSample g' by blast
qed

text \<open>
  C4 (as stated it fails: see the counterexample). With status InProgress and a position
  outside the board, \<open>openCell\<close> and \<open>toggleFlag\<close> raise a \<open>TypeError\<close>; the game is left as
  it was.
\<close>

theorem out_of_bounds_raises:
  "wf_game sampleGame \<and> status sampleGame = InProgress \<and> \<not> inBounds sampleGame 3 0 \<and>
   openCell sampleGame 3 0 = Some (Some TypeError, sampleGame) \<and>
   toggleFlag sampleGame 3 0 = (Some TypeError, sampleGame)"
  by code_simp

text \<open>
  C4, amended. On a well-formed game, \<open>openCell\<close> and \<open>toggleFlag\<close> raise nothing and leave
  the game as it was when the status is not InProgress (whatever the position), and when
  the position is on the board and its cell is in the wrong state (not Closed for
  \<open>openCell\<close>, Open for \<open>toggleFlag\<close>). With status InProgress and a position outside the
  board they raise a \<open>TypeError\<close> and leave the game as it was.
\<close>

theorem guards_leave_game_unchanged:
  "wf_game g \<longrightarrow>
   (status g \<noteq> InProgress \<longrightarrow> openCell g r c = Some (None, g) \<and> toggleFlag g r c = (None, g)) \<and>
   (\<forall>x. inBounds g r c \<and> cell_at (board g) r c = Some x \<and> state x \<noteq> Closed \<longrightarrow>
        openCell g r c = Some (None, g)) \<and>
   (\<forall>x. inBounds g r c \<and> cell_at (board g) r c = Some x \<and> state x = Open \<longrightarrow>
        toggleFlag g r c = (None, g)) \<and>
   (status g = InProgress \<and> \<not> inBounds g r c \<longrightarrow>
        openCell g r c = Some (Some TypeError, g) \<and> toggleFlag g r c = (Some TypeError, g))"
proof
  assume wf: "wf_game g"
  have "openCell g r c = Some (Some TypeError, g) \<and> toggleFlag g r c = (Some TypeError, g)"
    if "status g = InProgress" "\<not> inBounds g r c"
  proof -
    have "cell_at (board g) r c = None" using wf that(2) by (simp add: wf_game_cell_at_None)
    then show ?thesis using that(1) by (simp add: openCell_def toggleFlag_def)
  qed
  moreover have "openCell g r c = Some (None, g)"
    if "cell_at (board g) r c = Some x" "state x \<noteq> Closed" for x
    using that by (simp add: openCell_def)
  moreover have "toggleFlag g r c = (None, g)"
    if "cell_at (board g) r c = Some x" "state x = Open" for x
    using that by (simp add: toggleFlag_def)
  ultimately show "(status g \<noteq> InProgress \<longrightarrow> openCell g r c = Some (None, g) \<and> toggleFlag g r c = (None, g)) \<and>
   (\<forall>x. inBounds g r c \<and> cell_at (board g) r c = Some x \<and> state x \<noteq> Closed \<longrightarrow>
        openCell g r c = Some (None, g)) \<and>
   (\<forall>x. inBounds g r c \<and> cell_at (board g) r c = Some x \<and> state x = Open \<longrightarrow>
        toggleFlag g r c = (None, g)) \<and>
   (status g = InProgress \<and> \<not> inBounds g r c \<longrightarrow>
        openCell g r c = Some (Some TypeError, g) \<and> toggleFlag g r c = (Some TypeError, g))"
    using openCell_terminal toggleFlag_terminal by blast
qed

theorem guards_leave_game_unchanged_witness:
  "wf_game lostGame \<and> status lostGame \<noteq> InProgress \<and>
   openCell lostGame 7 7 = Some (None, lostGame) \<and> toggleFlag lostGame 7 7 = (None, lostGame) \<and>
   wf_game openedGame \<and> inBounds openedGame 1 1 \<and> inBounds openedGame 2 0 \<and>
   cell_at (board openedGame) 1 1 = Some \<lparr>hasMine = True, neighborMines = 0, state = Flagged\<rparr> \<and>
   cell_at (board openedGame) 2 0 = Some \<lparr>hasMine = False, neighborMines = 0, state = Open\<rparr> \<and>
   openCell openedGame 1 1 = Some (None, openedGame) \<and>
   toggleFlag openedGame 2 0 = (None, openedGame) \<and>
   status openedGame = InProgress \<and> \<not> inBounds openedGame (- 1) 2 \<and>
   openCell openedGame (- 1) 2 = Some (Some TypeError, openedGame) \<and>
   toggleFlag openedGame (- 1) 2 = (Some TypeError, openedGame)"
proof -
  have wf: "wf_game lostGame" "wf_game openedGame" by code_simp+
  have st: "status lostGame \<noteq> InProgress" "status openedGame = InProgress"
    by (simp_all add: lostGame_def openedGame_def)
  have ib: "inBounds openedGame 1 1" "inBounds openedGame 2 0" "\<not> inBounds openedGame (- 1) 2"
    by (simp_all add: inBounds_def openedGame_def)
  have c11: "cell_at (board openedGame) 1 1 = Some \<lparr>hasMine = True, neighborMines = 0, state = Flagged\<rparr>"
    by (simp add: openedGame_def cell_at_def js_index_def)
  have c20: "cell_at (board openedGame) 2 0 = Some \<lparr>hasMine = False, neighborMines = 0, state = Open\<rparr>"
    by (simp add: openedGame_def cell_at_def js_index_def)
  have a: "openCell lostGame 7 7 = Some (None, lostGame) \<and> toggleFlag lostGame 7 7 = (None, lostGame)"
    using guards_leave_game_unchanged [of lostGame 7 7] wf st by blast
  have b: "openCell openedGame 1 1 = Some (None, openedGame)"
    using guards_leave_game_unchanged [of openedGame 1 1] wf ib c11 by auto
  have c: "toggleFlag openedGame 2 0 = (None, openedGame)"
    using guards_leave_game_unchanged [of openedGame 2 0] wf ib c20 by auto
  have d: "openCell openedGame (- 1) 2 = Some (Some TypeError, openedGame) \<and>
           toggleFlag openedGame (- 1) 2 = (Some TypeError, openedGame)"
    using guards_leave_game_unchanged [of openedGame "- 1" 2] wf ib st by blast
  show ?thesis using wf st ib c11 c20 a b c d by blast
qed

text \<open>
  C5. On a well-formed game in progress, \<open>openCell\<close> at a Closed cell without a mine returns
  without exception, and the status of the game it leaves is Win exactly when the number
  of cells without a mine whose state is not Open is zero, that is, when every cell without
  a mine is Open; otherwise the status stays InProgress. \<open>toggleFlag\<close> leaves the status as
  it was, on every game and at every position.
\<close>

theorem openCell_win_check:
  "(wf_game g \<and> status g = InProgress \<and>
      (\<exists>x. cell_at (board g) r c = Some x \<and> state x = Closed \<and> \<not> hasMine x) \<longrightarrow>
    (\<exists>g'. openCell g r c = Some (None, g') \<and>
       (status g' = Win \<longleftrightarrow> card (unopened_safe (board g')) = 0) \<and>
       (status g' = Win \<longleftrightarrow>
          (\<forall>r' c' y. cell_at (board g') r' c' = Some y \<and> \<not> hasMine y \<longrightarrow> state y = Open)) \<and>
       (status g' \<noteq> Win \<longrightarrow> status g' = InProgress))) \<and>
   status (snd (toggleFlag g r c)) = status g"
proof -
  have "\<exists>g'. openCell g r c = Some (None, g') \<and>
       (status g' = Win \<longleftrightarrow> card (unopened_safe (board g')) = 0) \<and>
       (status g' = Win \<longleftrightarrow>
          (\<forall>r' c' y. cell_at (board g') r' c' = Some y \<and> \<not> hasMine y \<longrightarrow> state y = Open)) \<and>
       (status g' \<noteq> Win \<longrightarrow> status g' = InProgress)"
    if wf: "wf_game g" and st: "status g = InProgress"
      and x: "cell_at (board g) r c = Some x" "state x = Closed" "\<not> hasMine x" for x
  proof -
    let ?opened = "if neighborMines x = 0 then floodOpen g r c
                   else Some (None, g\<lparr>board := update_cell (board g) r c (\<lambda>y. y\<lparr>state := Open\<rparr>)\<rparr>)"
    have "\<exists>g1. ?opened = Some (None, g1) \<and> wf_game g1 \<and> status g1 = InProgress"
    proof (cases "neighborMines x = 0")
      case True
      have "inBounds g r c" using wf x(1) wf_game_cell_at_None [of g r c] by simp
      then have "\<forall>p\<in>set [(r, c)]. inBounds g (fst p) (snd p)" by simp
      from floodOpen_loop_wf [OF wf this] obtain g1 where
        "floodOpen_loop g [(r, c)] = Some (None, g1)" "flood_frame g g1" by blast
      then show ?thesis using True wf st flood_frame_wf [of g g1]
        by (auto simp: floodOpen_def flood_frame_def)
    next
      case False
      then show ?thesis using wf st wf_game_update_cell [OF wf, of r c] by simp
    qed
    then obtain g1 where g1: "?opened = Some (None, g1)" "wf_game g1" "status g1 = InProgress"
      by blast
    let ?g' = "if card (unopened_safe (board g1)) = 0 then g1\<lparr>status := Win\<rparr> else g1"
    have "openCell g r c = Some (checkWinCondition g1)"
      using st x g1(1) by (simp add: openCell_def)
    then have res: "openCell g r c = Some (None, ?g')"
      by (simp add: checkWinCondition_wf [OF g1(2)])
    have "status ?g' = Win \<longleftrightarrow> card (unopened_safe (board ?g')) = 0"
      using g1(3) by simp
    moreover have "status ?g' \<noteq> Win \<longrightarrow> status ?g' = InProgress"
      using g1(3) by simp
    ultimately show ?thesis using res unopened_safe_empty [of "board ?g'"] by metis
  qed
  then show ?thesis by (simp add: toggleFlag_status) blast
qed

theorem openCell_win_check_witness:
  "wf_game tinyGame \<and> status tinyGame = InProgress \<and>
   cell_at (board tinyGame) 0 0 = Some \<lparr>hasMine = False, neighborMines = 0, state = Closed\<rparr> \<and>
   openCell tinyGame 0 0 =
     Some (None, \<lparr>rows = 1, cols = 1, mines = 0, status = Win,
                  board = [[\<lparr>hasMine = False, neighborMines = 0, state = Open\<rparr>]]\<rparr>) \<and>
   card (unopened_safe [[\<lparr>hasMine = False, neighborMines = 0, state = Open\<rparr>]]) = 0 \<and>
   status (snd (toggleFlag tinyGame 0 0)) = InProgress"
proof -
  have wf: "wf_game tinyGame" by code_simp
  have st: "status tinyGame = InProgress" by (simp add: tinyGame_def)
  have x: "cell_at (board tinyGame) 0 0 = Some \<lparr>hasMine = False, neighborMines = 0, state = Closed\<rparr>"
    by (simp add: tinyGame_def createCell_def cell_at_def js_index_def)
  have res: "openCell tinyGame 0 0 =
     Some (None, \<lparr>rows = 1, cols = 1, mines = 0, status = Win,
                  board = [[\<lparr>hasMine = False, neighborMines = 0, state = Open\<rparr>]]\<rparr>)"
    by code_simp
  have "card (unopened_safe [[\<lparr>hasMine = False, neighborMines = 0, state = Open\<rparr>]]) = 0"
    using openCell_win_check [of tinyGame 0 0] wf st x res by auto
  moreover have "status (snd (toggleFlag tinyGame 0 0)) = InProgress"
    using openCell_win_check [of tinyGame 0 0] st by simp
  ultimately show ?thesis using wf st x res by simp
qed

text \<open>
  C6 (as stated it fails: see the counterexample). With as many mines as cells, here one
  mine on a board of one cell and the source whose every value is 0, \<open>createGame\<close> raises
  nothing and returns a game in progress whose cell has a mine.
\<close>

theorem full_board_is_returned:
  "(1::int) = 1 * 1 \<and>
   createGame double_product zero_source 1 1 1 =
     Some (Inr \<lparr>rows = 1, cols = 1, mines = 1, status = InProgress,
                 board = [[\<lparr>hasMine = True, neighborMines = 0, state = Closed\<rparr>]]\<rparr>)"
proof -
  have "createGame double_product zero_source 1 1 1 =
     Some (Inr \<lparr>rows = 1, cols = 1, mines = 1, status = InProgress,
                 board = [[\<lparr>hasMine = True, neighborMines = 0, state = Closed\<rparr>]]\<rparr>)"
    by code_simp
  then show ?thesis by simp
qed

text \<open>
  C6, amended. For \<open>nr \<ge> 1\<close> rows, \<open>nc \<ge> 1\<close> columns and as many mines as cells, and every
  random source and double product for which the positions that the placement loop draws
  in its first \<open>n\<close> iterations, for some \<open>n\<close>, are positions of the board and are all of them,
  \<open>createGame\<close> raises nothing and returns a well-formed game in progress, with the \<open>rows\<close>,
  \<open>cols\<close> and \<open>mines\<close> asked for, in which every cell has a mine and is Closed. Nothing is
  stated for more mines than cells.
\<close>

theorem createGame_full:
  assumes "1 \<le> nr" "1 \<le> nc"
    and "drawn fmul rnd nr nc n \<subseteq> on_board nr nc"
    and "nat (nr * nc) \<le> card (drawn fmul rnd nr nc n)"
  shows "\<exists>g. createGame fmul rnd nr nc (nr * nc) = Some (Inr g) \<and> status g = InProgress \<and>
           rows g = nr \<and> cols g = nc \<and> mines g = nr * nc \<and> wf_game g \<and>
           (\<forall>r c x. cell_at (board g) r c = Some x \<longrightarrow> hasMine x \<and> state x = Closed)"
proof -
  have m: "0 \<le> nr * nc" using assms(1,2) by simp
  from createBoard_returns [OF assms(1,2) m assms(3,4)] obtain b where
    b: "createBoard fmul rnd nr nc (nr * nc) = Some (Inr b)" "wf_board nr nc b"
      "card (mine_positions b) = nat (nr * nc)"
    and cells: "\<And>r c x. cell_at b r c = Some x \<Longrightarrow> state x = Closed"
    by blast
  let ?g = "\<lparr>rows = nr, cols = nc, mines = nr * nc, status = InProgress, board = b\<rparr>"
  have res: "createGame fmul rnd nr nc (nr * nc) = Some (Inr ?g)"
    using b(1) by (simp add: createGame_def)
  have cp: "card (on_board nr nc) = nat (nr * nc)"
    using assms(1,2) by (intro card_positions) simp_all
  have "card (mine_positions b) = card (on_board nr nc)"
    unfolding cp by (rule b(3))
  then have all: "mine_positions b = on_board nr nc"
    by (intro card_subset_eq finite_on_board mine_positions_in_bounds [OF b(2)])
  have "hasMine x \<and> state x = Closed" if x: "cell_at b r c = Some x" for r c x
  proof -
    have "(r, c) \<in> on_board nr nc"
      using x wf_board_cell_at_None [OF b(2), of r c] by (auto simp: on_board_def)
    then have "(r, c) \<in> mine_positions b" unfolding all .
    then show ?thesis using x cells [OF x] by (auto simp: mine_positions_def)
  qed
  moreover have "wf_game ?g" using b(2) by (simp add: wf_game_wf_board)
  ultimately show ?thesis using res by (intro exI [of _ ?g]) simp
qed

theorem createGame_full_witness:
  "(1::int) \<le> 2 \<and> drawn double_product full_source 2 2 4 \<subseteq> on_board 2 2 \<and>
   nat (2 * 2) \<le> card (drawn double_product full_source 2 2 4) \<and>
   createGame double_product full_source 2 2 (2 * 2) =
     Some (Inr \<lparr>rows = 2, cols = 2, mines = 4, status = InProgress, board =
       [[\<lparr>hasMine = True, neighborMines = 0, state = Closed\<rparr>,
         \<lparr>hasMine = True, neighborMines = 0, state = Closed\<rparr>],
        [\<lparr>hasMine = True, neighborMines = 0, state = Closed\<rparr>,
         \<lparr>hasMine = True, neighborMines = 0, state = Closed\<rparr>]]\<rparr>)"
proof -
  have inb: "drawn double_product full_source 2 2 4 \<subseteq> on_board 2 2"
    by (simp add: drawn_full_source on_board_def)
  have fair: "nat (2 * 2) \<le> card (drawn double_product full_source 2 2 4)"
    by (simp add: drawn_full_source)
  from createGame_full [OF _ _ inb fair]
  obtain g where g: "createGame double_product full_source 2 2 (2 * 2) = Some (Inr g)"
    and st: "status g = InProgress" and dims: "rows g = 2" "cols g = 2" "mines g = 2 * 2"
    and wf: "wf_game g"
    and cells: "\<And>r c x. cell_at (board g) r c = Some x \<Longrightarrow> hasMine x \<and> state x = Closed"
    by auto
  have "createGame double_product full_source 2 2 (2 * 2) =
     Some (Inr \<lparr>rows = 2, cols = 2, mines = 4, status = InProgress, board =
       [[\<lparr>hasMine = True, neighborMines = 0, state = Closed\<rparr>,
         \<lparr>hasMine = True, neighborMines = 0, state = Closed\<rparr>],
        [\<lparr>hasMine = True, neighborMines = 0, state = Closed\<rparr>,
         \<lparr>hasMine = True, neighborMines = 0, state = Closed\<rparr>]]\<rparr>)"
    by code_simp
  then show ?thesis using inb fair g by simp
qed

text \<open>
  C7. A game returned by \<open>createGame\<close> has status InProgress. Every call of \<open>openCell\<close>
  returns, and a call that changes the status starts from InProgress and ends in Win or
  Lose; \<open>toggleFlag\<close> never changes the status. Once the status is Win or Lose, \<open>openCell\<close>
  and \<open>toggleFlag\<close> raise nothing and leave the whole game, status and cells, as it was.
\<close>

theorem status_monotonic:
  "(\<forall>fmul rnd nr nc nm g0. createGame fmul rnd nr nc nm = Some (Inr g0) \<longrightarrow>
      status g0 = InProgress) \<and>
   (\<exists>e g'. openCell g r c = Some (e, g') \<and>
      (status g' \<noteq> status g \<longrightarrow> status g = InProgress \<and> (status g' = Win \<or> status g' = Lose)) \<and>
      (status g \<noteq> InProgress \<longrightarrow> e = None \<and> g' = g)) \<and>
   status (snd (toggleFlag g r c)) = status g \<and>
   (status g \<noteq> InProgress \<longrightarrow> toggleFlag g r c = (None, g))"
proof -
  obtain e g' where res: "openCell g r c = Some (e, g')"
    using openCell_returns [of g r c] by auto
  have "status g = InProgress \<and> (status g' = Win \<or> status g' = Lose)" if "status g' \<noteq> status g"
  proof (cases "status g = InProgress")
    case True
    then show ?thesis using that by (cases "status g'") auto
  next
    case False
    then show ?thesis using res that by (simp add: openCell_terminal)
  qed
  moreover have "e = None \<and> g' = g" if "status g \<noteq> InProgress"
    using res that by (simp add: openCell_terminal)
  ultimately show ?thesis
    using res createGame_status toggleFlag_status toggleFlag_terminal by blast
qed

theorem status_monotonic_witness:
  "createGame double_product zero_source 1 1 1 =
     Some (Inr \<lparr>rows = 1, cols = 1, mines = 1, status = InProgress,
                 board = [[\<lparr>hasMine = True, neighborMines = 0, state = Closed\<rparr>]]\<rparr>) \<and>
   status sampleGame = InProgress \<and> openCell sampleGame 0 1 = Some (None, lostGame) \<and>
   status lostGame = Lose \<and> status lostGame \<noteq> InProgress \<and>
   openCell lostGame 2 0 = Some (None, lostGame) \<and> toggleFlag lostGame 2 0 = (None, lostGame)"
proof -
  have mk: "createGame double_product zero_source 1 1 1 =
     Some (Inr \<lparr>rows = 1, cols = 1, mines = 1, status = InProgress,
                 board = [[\<lparr>hasMine = True, neighborMines = 0, state = Closed\<rparr>]]\<rparr>)"
    by code_simp
  have op: "openCell sampleGame 0 1 = Some (None, lostGame)" by code_simp
  have st: "status sampleGame = InProgress" "status lostGame \<noteq> status sampleGame"
    by (simp_all add: sampleGame_def lostGame_def)
  have "status lostGame = Lose \<or> status lostGame = Win"
    using status_monotonic [of sampleGame 0 1] op st by auto
  then have lose: "status lostGame = Lose" by (simp add: lostGame_def)
  then have fin: "status lostGame \<noteq> InProgress" by simp
  have "openCell lostGame 2 0 = Some (None, lostGame) \<and> toggleFlag lostGame 2 0 = (None, lostGame)"
    using status_monotonic [of lostGame 2 0] fin by auto
  then show ?thesis using mk op st lose fin by simp
qed

text \<open>
  C8. The work-list loop of \<open>floodOpen\<close> ends, from every game and every work list: it
  returns a result (a game, with or without an exception). Every cell of the result has
  the state it had, or was Closed and is Open, and this holds from every configuration the
  loop passes through, so that no cell changes state twice. A popped position whose cell
  is not Closed, or has a mine, is dropped: the loop goes on with the rest of the list and
  the same game.
\<close>

theorem floodOpen_loop_terminates:
  "(\<exists>e g'. floodOpen_loop g stack = Some (e, g') \<and>
      (\<forall>r c x. cell_at (board g) r c = Some x \<longrightarrow>
         (\<exists>x'. cell_at (board g') r c = Some x' \<and>
            (state x' = state x \<or> state x = Closed \<and> state x' = Open)))) \<and>
   (\<forall>p rest x. stack = p # rest \<and> cell_at (board g) (fst p) (snd p) = Some x \<and>
        (state x \<noteq> Closed \<or> hasMine x) \<longrightarrow> floodOpen_loop g stack = floodOpen_loop g rest)"
proof -
  obtain e g' where res: "floodOpen_loop g stack = Some (e, g')" and fr: "flood_frame g g'"
    using floodOpen_loop_frame [of g stack] by auto
  have "\<exists>x'. cell_at (board g') r c = Some x' \<and>
            (state x' = state x \<or> state x = Closed \<and> state x' = Open)"
    if "cell_at (board g) r c = Some x" for r c x
  proof -
    from fr have "cell_at (board g') r c = cell_at (board g) r c \<or>
        (\<exists>y. cell_at (board g) r c = Some y \<and> state y = Closed \<and> \<not> hasMine y \<and>
             cell_at (board g') r c = Some (y\<lparr>state := Open\<rparr>))"
      unfolding flood_frame_def by blast
    then show ?thesis using that by auto
  qed
  then show ?thesis using res floodOpen_loop_skip by blast
qed

theorem floodOpen_loop_terminates_witness:
  "cell_at (board sampleGame) 2 1 = Some \<lparr>hasMine = False, neighborMines = 2, state = Closed\<rparr> \<and>
   cell_at (board sampleGame) 0 1 = Some \<lparr>hasMine = True, neighborMines = 0, state = Closed\<rparr> \<and>
   (\<exists>e g' x'. floodOpen_loop sampleGame [(0, 1), (2, 0)] = Some (e, g') \<and>
      cell_at (board g') 2 1 = Some x' \<and> (state x' = Closed \<or> state x' = Open)) \<and>
   floodOpen_loop sampleGame [(0, 1), (2, 0)] = floodOpen_loop sampleGame [(2, 0)]"
proof -
  have c21: "cell_at (board sampleGame) 2 1 = Some \<lparr>hasMine = False, neighborMines = 2, state = Closed\<rparr>"
    by (simp add: sampleGame_def createSampleBoard_def cell_at_def js_index_def)
  have c01: "cell_at (board sampleGame) 0 1 = Some \<lparr>hasMine = True, neighborMines = 0, state = Closed\<rparr>"
    by (simp add: sampleGame_def createSampleBoard_def cell_at_def js_index_def)
  from floodOpen_loop_terminates [of sampleGame "[(0, 1), (2, 0)]"]
  obtain e g' where res: "floodOpen_loop sampleGame [(0, 1), (2, 0)] = Some (e, g')"
    and cells: "\<And>r c x. cell_at (board sampleGame) r c = Some x \<Longrightarrow>
         (\<exists>x'. cell_at (board g') r c = Some x' \<and>
            (state x' = state x \<or> state x = Closed \<and> state x' = Open))"
    and skip: "\<And>p rest x. [(0, 1), (2, 0)] = p # rest \<and> cell_at (board sampleGame) (fst p) (snd p) = Some x \<and>
        (state x \<noteq> Closed \<or> hasMine x) \<Longrightarrow>
        floodOpen_loop sampleGame [(0, 1), (2, 0)] = floodOpen_loop sampleGame rest"
    by blast
  from cells [OF c21] obtain x' where "cell_at (board g') 2 1 = Some x'"
    "state x' = Closed \<or> state x' = Open" by auto
  moreover have "floodOpen_loop sampleGame [(0, 1), (2, 0)] = floodOpen_loop sampleGame [(2, 0)]"
    using skip [of "(0, 1)" "[(2, 0)]"] c01 by simp
  ultimately show ?thesis using c21 c01 res by blast
qed

text \<open>
  C9. On a well-formed game in progress, \<open>toggleFlag\<close> at a position of the board returns
  without exception; the cell there goes from Closed to Flagged, from Flagged to Closed,
  and stays Open when Open (the map \<open>toggled\<close>), its other fields kept; every other cell
  and the fields \<open>rows\<close>, \<open>cols\<close>, \<open>mines\<close>, \<open>status\<close> are as they were. On the game left
  behind, the number computed by \<open>updateMinesCounter\<close> is \<open>max 0 (mines - flaggedCount)\<close>,
  where \<open>flaggedCount\<close> is the number of positions whose cell is Flagged, and it is never
  negative.
\<close>

theorem toggleFlag_effect:
  assumes "wf_game g" "status g = InProgress" "cell_at (board g) r c = Some x"
  shows "\<exists>g'. toggleFlag g r c = (None, g') \<and>
           cell_at (board g') r c = Some (x\<lparr>state := toggled (state x)\<rparr>) \<and>
           (\<forall>r' c'. (r', c') \<noteq> (r, c) \<longrightarrow> cell_at (board g') r' c' = cell_at (board g) r' c') \<and>
           rows g' = rows g \<and> cols g' = cols g \<and> mines g' = mines g \<and> status g' = status g \<and>
           updateMinesCounter g' = Inr (max 0 (mines g - int (flaggedCount (board g')))) \<and>
           (\<exists>n. updateMinesCounter g' = Inr n \<and> 0 \<le> n)"
proof (cases "state x = Open")
  case True
  then have res: "toggleFlag g r c = (None, g)"
    using assms by (simp add: toggleFlag_def)
  have "x\<lparr>state := toggled (state x)\<rparr> = x" using True by (simp add: toggled_def)
  moreover have "updateMinesCounter g = Inr (max 0 (mines g - int (flaggedCount (board g))))"
    by (simp add: updateMinesCounter_def getFlagCount_wf [OF assms(1)])
  ultimately show ?thesis using res assms(3) by simp
next
  case False
  let ?f = "\<lambda>y. y\<lparr>state := (if state y = Flagged then Closed else Flagged)\<rparr>"
  let ?g' = "g\<lparr>board := update_cell (board g) r c ?f\<rparr>"
  have res: "toggleFlag g r c = (None, ?g')"
    using assms False by (simp add: toggleFlag_def)
  have wf': "wf_game ?g'" using assms(1) by (rule wf_game_update_cell)
  have "?f x = x\<lparr>state := toggled (state x)\<rparr>"
    using False by (cases "state x") (simp_all add: toggled_def)
  then have self: "cell_at (board ?g') r c = Some (x\<lparr>state := toggled (state x)\<rparr>)"
    by (simp add: cell_at_update_cell [OF assms(3)])
  have others: "cell_at (board ?g') r' c' = cell_at (board g) r' c'" if "(r', c') \<noteq> (r, c)" for r' c'
    using that by (auto simp: cell_at_update_cell [OF assms(3)])
  have "updateMinesCounter ?g' = Inr (max 0 (mines g - int (flaggedCount (board ?g'))))"
    by (simp add: updateMinesCounter_def getFlagCount_wf [OF wf'])
  then show ?thesis using res self others by simp
qed

theorem toggleFlag_effect_witness:
  "wf_game tinyGame \<and> status tinyGame = InProgress \<and>
   cell_at (board tinyGame) 0 0 = Some \<lparr>hasMine = False, neighborMines = 0, state = Closed\<rparr> \<and>
   toggleFlag tinyGame 0 0 =
     (None, \<lparr>rows = 1, cols = 1, mines = 0, status = InProgress,
             board = [[\<lparr>hasMine = False, neighborMines = 0, state = Flagged\<rparr>]]\<rparr>) \<and>
   flaggedCount [[\<lparr>hasMine = False, neighborMines = 0, state = Flagged\<rparr>]] = 1 \<and>
   updateMinesCounter \<lparr>rows = 1, cols = 1, mines = 0, status = InProgress,
             board = [[\<lparr>hasMine = False, neighborMines = 0, state = Flagged\<rparr>]]\<rparr> = Inr 0"
proof -
  let ?g' = "\<lparr>rows = 1, cols = 1, mines = 0, status = InProgress,
             board = [[\<lparr>hasMine = False, neighborMines = 0, state = Flagged\<rparr>]]\<rparr>"
  have wf: "wf_game tinyGame" by code_simp
  have st: "status tinyGame = InProgress" by (simp add: tinyGame_def)
  have x: "cell_at (board tinyGame) 0 0 = Some \<lparr>hasMine = False, neighborMines = 0, state = Closed\<rparr>"
    by (simp add: tinyGame_def createCell_def cell_at_def js_index_def)
  have res: "toggleFlag tinyGame 0 0 = (None, ?g')" by code_simp
  have cnt: "updateMinesCounter ?g' = Inr 0" by code_simp
  from toggleFlag_effect [OF wf st x] res
  have "updateMinesCounter ?g' = Inr (max 0 (mines tinyGame - int (flaggedCount (board ?g'))))"
    by simp
  then have "max 0 (0 - int (flaggedCount [[\<lparr>hasMine = False, neighborMines = 0, state = Flagged\<rparr>]])) = 0"
    using cnt by (simp add: tinyGame_def)
  moreover have "flagged_positions [[\<lparr>hasMine = False, neighborMines = 0, state = Flagged\<rparr>]] = {(0, 0)}"
    by (auto simp: flagged_positions_def cell_at_Some_iff)
  then have "flaggedCount [[\<lparr>hasMine = False, neighborMines = 0, state = Flagged\<rparr>]] = 1"
    by (simp add: flaggedCount_def)
  ultimately have "flaggedCount [[\<lparr>hasMine = False, neighborMines = 0, state = Flagged\<rparr>]] = 1
      \<and> max 0 (0 - int (flaggedCount [[\<lparr>hasMine = False, neighborMines = 0, state = Flagged\<rparr>]])) = 0"
    by simp
  then show ?thesis using wf st x res cnt by simp
qed

text \<open>
  C10. On a well-formed game, \<open>openCell\<close> returns, at every position, and every Flagged cell
  without a mine is afterwards exactly as it was. Moreover, for every Flagged cell \<open>f\<close> with
  \<open>neighborMines = 0\<close> and every Closed cell \<open>t\<close> without a mine and with \<open>neighborMines = 0\<close>: if
  every path of zero-neighbor cells from the position of the call to \<open>t\<close> goes through \<open>f\<close>,
  then \<open>t\<close> is afterwards exactly as it was, Closed.
\<close>

theorem openCell_keeps_flagged:
  "wf_game g \<longrightarrow>
   (\<exists>e g'. openCell g r c = Some (e, g') \<and>
      (\<forall>r' c' y. cell_at (board g) r' c' = Some y \<and> state y = Flagged \<and> \<not> hasMine y \<longrightarrow>
         cell_at (board g') r' c' = Some y) \<and>
      (\<forall>fr fc f tr tc t.
         cell_at (board g) fr fc = Some f \<and> state f = Flagged \<and> neighborMines f = 0 \<and>
         cell_at (board g) tr tc = Some t \<and> state t = Closed \<and> \<not> hasMine t \<and>
         neighborMines t = 0 \<and>
         (\<forall>ps. zero_path (board g) (r, c) (tr, tc) ps \<longrightarrow> (fr, fc) \<in> set ps) \<longrightarrow>
         cell_at (board g') tr tc = Some t))"
proof
  assume wf: "wf_game g"
  let ?keeps = "\<lambda>g'. \<forall>r' c' y. cell_at (board g) r' c' = Some y \<and> state y = Flagged \<and> \<not> hasMine y \<longrightarrow>
         cell_at (board g') r' c' = Some y"
  let ?blocked = "\<lambda>g'. \<forall>fr fc f tr tc t.
         cell_at (board g) fr fc = Some f \<and> state f = Flagged \<and> neighborMines f = 0 \<and>
         cell_at (board g) tr tc = Some t \<and> state t = Closed \<and> \<not> hasMine t \<and>
         neighborMines t = 0 \<and>
         (\<forall>ps. zero_path (board g) (r, c) (tr, tc) ps \<longrightarrow> (fr, fc) \<in> set ps) \<longrightarrow>
         cell_at (board g') tr tc = Some t"
  show "\<exists>e g'. openCell g r c = Some (e, g') \<and> ?keeps g' \<and> ?blocked g'"
  proof (cases "status g = InProgress")
    case False
    then have "openCell g r c = Some (None, g)" by (simp add: openCell_def)
    then show ?thesis by auto
  next
    case st: True
    show ?thesis
    proof (cases "cell_at (board g) r c")
      case None
      then have "openCell g r c = Some (Some TypeError, g)" using st by (simp add: openCell_def)
      then show ?thesis by auto
    next
      case (Some x)
      show ?thesis
      proof (cases "state x = Closed")
        case False
        then have "openCell g r c = Some (None, g)" using Some by (simp add: openCell_def)
        then show ?thesis by auto
      next
        case closed: True
        show ?thesis
        proof (cases "hasMine x")
          case True
          from openCell_mine_cells [OF wf st Some closed True] obtain g' where
            res: "openCell g r c = Some (None, g')"
            and cells: "\<And>r' c'. cell_at (board g') r' c' =
                map_option (\<lambda>y. if hasMine y then y\<lparr>state := Open\<rparr> else y) (cell_at (board g) r' c')"
            by blast
          have "?keeps g'" by (simp add: cells)
          moreover have "?blocked g'" by (simp add: cells)
          ultimately show ?thesis using res by blast
        next
          case safe: False
          show ?thesis
          proof (cases "neighborMines x = 0")
            case False
            from openCell_single [OF wf st Some closed safe False] obtain g' where
              res: "openCell g r c = Some (None, g')"
              and cells: "\<And>r' c'. cell_at (board g') r' c' =
                  (if r' = r \<and> c' = c then Some (x\<lparr>state := Open\<rparr>) else cell_at (board g) r' c')"
              by blast
            have "?keeps g'" using Some closed by (auto simp: cells)
            moreover have "?blocked g'" using Some False by (auto simp: cells)
            ultimately show ?thesis using res by blast
          next
            case zero: True
            let ?R = "flood_region (board g) (r, c)"
            from openCell_flood [OF wf st Some closed safe zero] obtain g' where
              res: "openCell g r c = Some (None, g')"
              and cells: "\<And>r' c'. cell_at (board g') r' c' =
                  map_option (\<lambda>y. if (r', c') \<in> ?R then y\<lparr>state := Open\<rparr> else y)
                    (cell_at (board g) r' c')"
              by blast
            have "?keeps g'"
            proof (intro allI impI)
              fix r' c' y
              assume y: "cell_at (board g) r' c' = Some y \<and> state y = Flagged \<and> \<not> hasMine y"
              then have "(r', c') \<notin> ?R" by (simp add: flood_region_def closed_safe_def)
              then show "cell_at (board g') r' c' = Some y" using y by (simp add: cells)
            qed
            moreover have "?blocked g'"
            proof (intro allI impI)
              fix fr fc f tr tc t
              assume h: "cell_at (board g) fr fc = Some f \<and> state f = Flagged \<and> neighborMines f = 0 \<and>
                cell_at (board g) tr tc = Some t \<and> state t = Closed \<and> \<not> hasMine t \<and>
                neighborMines t = 0 \<and>
                (\<forall>ps. zero_path (board g) (r, c) (tr, tc) ps \<longrightarrow> (fr, fc) \<in> set ps)"
              have "(tr, tc) \<notin> ?R"
              proof
                assume inR: "(tr, tc) \<in> ?R"
                have "zero_cell (board g) (tr, tc)" using h by (simp add: zero_cell_def)
                with inR have "(tr, tc) \<in> zero_region (board g) (r, c)"
                  by (rule flood_region_zero_cell)
                from zero_region_path [OF this] obtain ps where
                  ps: "zero_path (board g) (r, c) (tr, tc) ps" "\<forall>p\<in>set ps. zero_cell (board g) p"
                  by blast
                then have "(fr, fc) \<in> set ps" using h by blast
                then have "zero_cell (board g) (fr, fc)" using ps(2) by blast
                then show False using h by (simp add: zero_cell_def)
              qed
              then show "cell_at (board g') tr tc = Some t" using h by (simp add: cells)
            qed
            ultimately show ?thesis using res by blast
          qed
        qed
      qed
    qed
  qed
qed

theorem openCell_keeps_flagged_witness:
  "wf_game flaggedRow \<and>
   cell_at (board flaggedRow) 0 1 = Some \<lparr>hasMine = False, neighborMines = 0, state = Flagged\<rparr> \<and>
   cell_at (board flaggedRow) 0 2 = Some \<lparr>hasMine = False, neighborMines = 0, state = Closed\<rparr> \<and>
   (\<exists>g'. openCell flaggedRow 0 0 = Some (None, g') \<and>
      cell_at (board g') 0 0 = Some \<lparr>hasMine = False, neighborMines = 0, state = Open\<rparr> \<and>
      cell_at (board g') 0 1 = Some \<lparr>hasMine = False, neighborMines = 0, state = Flagged\<rparr> \<and>
      cell_at (board g') 0 2 = Some \<lparr>hasMine = False, neighborMines = 0, state = Closed\<rparr>)"
proof -
  have wf: "wf_game flaggedRow" by code_simp
  have paths: "\<forall>ps. zero_path (board flaggedRow) (0, 0) (0, 2) ps \<longrightarrow> (0, 1) \<in> set ps"
    using flaggedRow_paths by blast
  have run: "openCell flaggedRow 0 0 =
     Some (None, \<lparr>rows = 1, cols = 3, mines = 0, status = InProgress, board =
       [[\<lparr>hasMine = False, neighborMines = 0, state = Open\<rparr>,
         \<lparr>hasMine = False, neighborMines = 0, state = Flagged\<rparr>,
         \<lparr>hasMine = False, neighborMines = 0, state = Closed\<rparr>]]\<rparr>)"
    by code_simp
  from openCell_keeps_flagged [of flaggedRow 0 0] wf
  obtain e g' where res: "openCell flaggedRow 0 0 = Some (e, g')"
    and keeps: "\<And>r' c' y. cell_at (board flaggedRow) r' c' = Some y \<and> state y = Flagged \<and> \<not> hasMine y \<Longrightarrow>
         cell_at (board g') r' c' = Some y"
    and blocked: "\<And>fr fc f tr tc t.
         cell_at (board flaggedRow) fr fc = Some f \<and> state f = Flagged \<and> neighborMines f = 0 \<and>
         cell_at (board flaggedRow) tr tc = Some t \<and> state t = Closed \<and> \<not> hasMine t \<and>
         neighborMines t = 0 \<and>
         (\<forall>ps. zero_path (board flaggedRow) (0, 0) (tr, tc) ps \<longrightarrow> (fr, fc) \<in> set ps) \<Longrightarrow>
         cell_at (board g') tr tc = Some t"
    by blast
  have e: "e = None" using res run by simp
  have "cell_at (board g') 0 0 = Some \<lparr>hasMine = False, neighborMines = 0, state = Open\<rparr>"
    using res run by (auto simp: cell_at_def js_index_def)
  moreover have "cell_at (board g') 0 1 = Some \<lparr>hasMine = False, neighborMines = 0, state = Flagged\<rparr>"
    using keeps [of 0 1] cell_at_flaggedRow(2) by simp
  moreover have "cell_at (board g') 0 2 = Some \<lparr>hasMine = False, neighborMines = 0, state = Closed\<rparr>"
    using blocked [of 0 1 _ 0 2] cell_at_flaggedRow(2,3) paths by simp
  ultimately show ?thesis using wf cell_at_flaggedRow res e by blast
qed

end
